theory Spec2Isabelle
  imports Complex_Main
begin

section \<open>Process records\<close>

text \<open>
  A \<^verbatim>\<open>Process\<close> object of \<^verbatim>\<open>scheduling.py\<close>: the three fields of the specification
  followed by the per-run execution state. Python integers are unbounded, so every
  field is an \<^typ>\<open>int\<close>.
\<close>

record process =
  pid :: int
  arrival_time :: int
  burst_time :: int
  remaining_time :: int
  completion_time :: int
  turnaround_time :: int
  waiting_time :: int
  response_time :: int
  first_run :: int

text \<open>\<^verbatim>\<open>Process.__init__\<close>: no check of any argument.\<close>

definition Process :: "int \<Rightarrow> int \<Rightarrow> int \<Rightarrow> process" where
  "Process i a b =
     \<lparr>pid = i, arrival_time = a, burst_time = b, remaining_time = b,
      completion_time = 0, turnaround_time = 0, waiting_time = 0,
      response_time = 0, first_run = - 1\<rparr>"

section \<open>Timeline labels\<close>

text \<open>
  A timeline entry is the Python tuple \<^verbatim>\<open>(label, start, end)\<close>. The label of a process
  is the f-string \<^verbatim>\<open>f'P{pid}'\<close>, that is the letter P followed by the decimal rendering
  of the integer, with a leading minus sign for a negative one.
\<close>

type_synonym entry = "string \<times> int \<times> int"

definition digit_char :: "nat \<Rightarrow> char" where
  "digit_char d = ''0123456789'' ! d"

fun str_nat :: "nat \<Rightarrow> string" where
  "str_nat n = (if n < 10 then [digit_char n] else str_nat (n div 10) @ [digit_char (n mod 10)])"

declare str_nat.simps [simp del]

definition str_int :: "int \<Rightarrow> string" where
  "str_int i = (if i < 0 then CHR ''-'' # str_nat (nat (- i)) else str_nat (nat i))"

definition label :: "process \<Rightarrow> string" where
  "label p = CHR ''P'' # str_int (pid p)"

definition IDLE :: string where
  "IDLE = ''IDLE''"

definition entry_label :: "entry \<Rightarrow> string" where
  "entry_label e = fst e"

definition entry_start :: "entry \<Rightarrow> int" where
  "entry_start e = fst (snd e)"

definition entry_end :: "entry \<Rightarrow> int" where
  "entry_end e = snd (snd e)"

section \<open>The simulator object\<close>

record simulator =
  original_processes :: "process list"
  processes :: "process list"
  timeline :: "entry list"

definition SchedulerSimulator :: "process list \<Rightarrow> simulator" where
  "SchedulerSimulator ps = \<lparr>original_processes = ps, processes = [], timeline = []\<rparr>"

definition reset_processes :: "simulator \<Rightarrow> simulator" where
  "reset_processes sim =
     sim\<lparr>processes := map (\<lambda>p. Process (pid p) (arrival_time p) (burst_time p))
                           (original_processes sim),
         timeline := []\<rparr>"

definition metrics :: "process \<Rightarrow> process" where
  "metrics p =
     (let p1 = p\<lparr>turnaround_time := completion_time p - arrival_time p\<rparr>
      in p1\<lparr>waiting_time := turnaround_time p1 - burst_time p1\<rparr>)"

definition calculate_metrics :: "simulator \<Rightarrow> simulator" where
  "calculate_metrics sim = sim\<lparr>processes := map metrics (processes sim)\<rparr>"

text \<open>
  \<^verbatim>\<open>print_results\<close> returns the three averages; the printing itself is left out, but
  not the divisions it makes, in their order. The division is Python's true division of
  two integers: it raises \<^verbatim>\<open>ZeroDivisionError\<close> for a zero divisor, raises
  \<^verbatim>\<open>OverflowError\<close> when the quotient, rounded, is beyond the largest double, and
  otherwise returns the quotient rounded to the nearest double, ties to even. A double
  is represented by the rational number it denotes.
\<close>

datatype error = ZeroDivisionError | OverflowError | KeyError

record averages =
  avg_tat :: rat
  avg_wt :: rat
  avg_rt :: rat

text \<open>The number of binary digits of a positive integer (Python's \<^verbatim>\<open>int.bit_length\<close>).\<close>

function bit_length :: "int \<Rightarrow> int" where
  "bit_length n = (if n \<le> 0 then 0 else 1 + bit_length (n div 2))"
  by pat_completeness auto

termination
  by (relation "measure nat") auto

declare bit_length.simps [simp del]

definition pow2 :: "int \<Rightarrow> rat" where
  "pow2 e = (if 0 \<le> e then 2 ^ nat e else 1 / 2 ^ nat (- e))"

text \<open>For a positive \<open>x\<close>, the exponent \<open>e\<close> with \<open>pow2 e \<le> x < pow2 (e + 1)\<close>.\<close>

definition floor_log2 :: "rat \<Rightarrow> int" where
  "floor_log2 x =
     (let (n, d) = quotient_of x;
          e = bit_length n - bit_length d
      in if pow2 e \<le> x then e else e - 1)"

definition round_half_even :: "rat \<Rightarrow> int" where
  "round_half_even r =
     (let f = \<lfloor>r\<rfloor>; d = r - of_int f
      in if d < 1 / 2 then f else if 1 / 2 < d then f + 1 else if even f then f else f + 1)"

text \<open>
  Rounding to binary64: 53 significant bits, the least exponent \<open>- 1022\<close> (below it the
  spacing of the subnormal numbers, \<open>pow2 (- 1074)\<close>, is kept).
\<close>

definition round_double :: "rat \<Rightarrow> rat" where
  "round_double q =
     (if q = 0 then 0
      else let x = \<bar>q\<bar>;
               e = max (floor_log2 x) (- 1022);
               ulp = pow2 (e - 52)
           in sgn q * of_int (round_half_even (x / ulp)) * ulp)"

text \<open>
  True division of two integers: \<^verbatim>\<open>ZeroDivisionError\<close> for a zero divisor, otherwise the
  quotient correctly rounded to a double, and \<^verbatim>\<open>OverflowError\<close> when the rounded quotient
  reaches \<open>pow2 1024\<close>, which no double represents (the largest one is
  \<^verbatim>\<open>2**1024 - 2**971\<close>).
\<close>

definition py_truediv :: "int \<Rightarrow> int \<Rightarrow> error + rat" where
  "py_truediv a b =
     (if b = 0 then Inl ZeroDivisionError
      else let r = round_double (of_int a / of_int b)
           in if 1024 \<le> floor_log2 \<bar>r\<bar> then Inl OverflowError else Inr r)"

definition print_results :: "simulator \<Rightarrow> error + averages" where
  "print_results sim =
     (let total_tat = sum_list (map turnaround_time (processes sim));
          total_wt = sum_list (map waiting_time (processes sim));
          total_rt = sum_list (map response_time (processes sim));
          n = int (length (processes sim))
      in case py_truediv total_tat n of Inl e \<Rightarrow> Inl e | Inr a \<Rightarrow>
         (case py_truediv total_wt n of Inl e \<Rightarrow> Inl e | Inr b \<Rightarrow>
         (case py_truediv total_rt n of Inl e \<Rightarrow> Inl e | Inr c \<Rightarrow>
            Inr \<lparr>avg_tat = a, avg_wt = b, avg_rt = c\<rparr>)))"

section \<open>FIFO\<close>

text \<open>
  The \<^verbatim>\<open>for\<close> loop of \<^verbatim>\<open>fifo_schedule\<close> over the sorted working list: the clock and the
  timeline are threaded through, each process object is updated in place.
\<close>

fun fifo_loop :: "process list \<Rightarrow> int \<Rightarrow> entry list \<Rightarrow> process list \<times> entry list" where
  "fifo_loop [] current_time tline = ([], tline)"
| "fifo_loop (p # ps) current_time tline =
     (let (t1, tl1) = (if current_time < arrival_time p
                       then (arrival_time p, tline @ [(IDLE, current_time, arrival_time p)])
                       else (current_time, tline));
          p1 = p\<lparr>response_time := t1 - arrival_time p, first_run := t1\<rparr>;
          start_time = t1;
          t2 = t1 + burst_time p1;
          p2 = p1\<lparr>completion_time := t2\<rparr>;
          (ps', tl') = fifo_loop ps t2 (tl1 @ [(label p2, start_time, t2)])
      in (p2 # ps', tl'))"

text \<open>Python's \<^verbatim>\<open>list.sort\<close> is stable, as is \<^const>\<open>sort_key\<close>.\<close>

definition fifo_schedule :: "simulator \<Rightarrow> (error + averages) \<times> simulator" where
  "fifo_schedule sim =
     (let s1 = reset_processes sim;
          s2 = s1\<lparr>processes := sort_key arrival_time (processes s1)\<rparr>;
          (ps', tl') = fifo_loop (processes s2) 0 (timeline s2);
          s3 = calculate_metrics (s2\<lparr>processes := ps', timeline := tl'\<rparr>)
      in (print_results s3, s3))"

section \<open>SJF\<close>

text \<open>
  Python's \<^verbatim>\<open>min(xs, key=f)\<close> keeps the first element whose key is minimal: a later
  element replaces the candidate only when its key is strictly smaller. Both calls in
  the source are guarded by a test that the list is not empty.
\<close>

fun py_min :: "('a \<Rightarrow> int) \<Rightarrow> 'a list \<Rightarrow> 'a" where
  "py_min key (x # xs) = fold (\<lambda>y best. if key y < key best then y else best) xs x"

text \<open>
  Process objects are referred to by their position in \<^verbatim>\<open>self.processes\<close>: the list
  \<^verbatim>\<open>remaining\<close> holds positions, and \<^verbatim>\<open>remaining.remove\<close> (comparison by identity, the
  class defines no \<^verbatim>\<open>__eq__\<close>) removes the position chosen. The list \<^verbatim>\<open>completed\<close> of
  \<^verbatim>\<open>sjf_schedule\<close> is only ever appended to and is left out.
\<close>

function sjf_loop :: "process list \<Rightarrow> int \<Rightarrow> nat list \<Rightarrow> entry list \<Rightarrow> process list \<times> entry list" where
  "sjf_loop ps current_time remaining tline =
     (if remaining = [] then (ps, tline)
      else
        let available = filter (\<lambda>i. arrival_time (ps ! i) \<le> current_time) remaining
        in if available = [] then
             let next_arrival = min_list (map (\<lambda>i. arrival_time (ps ! i)) remaining)
             in sjf_loop ps next_arrival remaining (tline @ [(IDLE, current_time, next_arrival)])
           else
             let shortest = py_min (\<lambda>i. burst_time (ps ! i)) available;
                 p = ps ! shortest;
                 p1 = p\<lparr>response_time := current_time - arrival_time p, first_run := current_time\<rparr>;
                 start_time = current_time;
                 t2 = current_time + burst_time p1;
                 p2 = p1\<lparr>completion_time := t2\<rparr>
             in sjf_loop (ps[shortest := p2]) t2 (remove1 shortest remaining)
                  (tline @ [(label p2, start_time, t2)]))"
  by pat_completeness auto

lemma py_min_in_set: "xs \<noteq> [] \<Longrightarrow> py_min key xs \<in> set xs"
proof -
  have "fold (\<lambda>y best. if key y < key best then y else best) ys b \<in> insert b (set ys)" for ys b
    by (induction ys arbitrary: b) auto
  then show "xs \<noteq> [] \<Longrightarrow> py_min key xs \<in> set xs"
    by (cases xs) auto
qed

lemma min_list_arrived:
  fixes f :: "nat \<Rightarrow> int"
  assumes "rem \<noteq> []"
  shows "filter (\<lambda>i. f i \<le> min_list (map f rem)) rem \<noteq> []"
proof -
  have "map f rem \<noteq> []" using assms by simp
  then have "min_list (map f rem) \<in> set (map f rem)"
    using Min_in [of "set (map f rem)"] by (simp add: min_list_Min)
  then obtain i where "i \<in> set rem" "f i \<le> min_list (map f rem)" by auto
  then show ?thesis unfolding filter_empty_conv by blast
qed

termination sjf_loop
proof (relation "measure (\<lambda>(ps, t, rem, tl).
         2 * length rem + (if filter (\<lambda>i. arrival_time (ps ! i) \<le> t) rem = [] then 1 else 0))",
       goal_cases)
  case 1
  show ?case by simp
next
  case (2 ps current_time remaining tline available next_arrival)
  then show ?case
    using min_list_arrived [of remaining "\<lambda>i. arrival_time (ps ! i)"] by simp
next
  case (3 ps current_time remaining tline available shortest p p1 start_time t2 p2)
  then have "shortest \<in> set available"
    using py_min_in_set by metis
  then have "shortest \<in> set remaining"
    using 3 by auto
  then have "length (remove1 shortest remaining) < length remaining"
    by (simp add: length_remove1) (cases remaining, auto)
  then show ?case using 3 by auto
qed

declare sjf_loop.simps [simp del]

definition sjf_schedule :: "simulator \<Rightarrow> (error + averages) \<times> simulator" where
  "sjf_schedule sim =
     (let s1 = reset_processes sim;
          (ps', tl') = sjf_loop (processes s1) 0 [0..<length (processes s1)] (timeline s1);
          s3 = calculate_metrics (s1\<lparr>processes := ps', timeline := tl'\<rparr>)
      in (print_results s3, s3))"

section \<open>STCF\<close>

text \<open>
  The local state of the \<^verbatim>\<open>while\<close> loop of \<^verbatim>\<open>stcf_schedule\<close>, together with the two
  fields of the simulator it updates. \<^verbatim>\<open>completed\<close> holds positions in
  \<^verbatim>\<open>self.processes\<close>.
\<close>

record stcf_state =
  st_processes :: "process list"
  st_time :: int
  st_completed :: "nat list"
  st_timeline :: "entry list"

definition stcf_available :: "process list \<Rightarrow> int \<Rightarrow> nat list" where
  "stcf_available ps t =
     filter (\<lambda>i. arrival_time (ps ! i) \<le> t \<and> remaining_time (ps ! i) > 0) [0..<length ps]"

text \<open>One iteration of the loop body. An idle iteration only advances the clock.\<close>

definition stcf_step :: "stcf_state \<Rightarrow> stcf_state" where
  "stcf_step s =
     (let ps = st_processes s; current_time = st_time s;
          available = stcf_available ps current_time
      in if available = [] then s\<lparr>st_time := current_time + 1\<rparr>
         else
           let cur = py_min (\<lambda>i. remaining_time (ps ! i)) available;
               p = ps ! cur;
               p1 = (if first_run p = - 1
                     then p\<lparr>first_run := current_time,
                            response_time := current_time - arrival_time p\<rparr>
                     else p);
               start_time = current_time;
               p2 = p1\<lparr>remaining_time := remaining_time p1 - 1\<rparr>;
               t2 = current_time + 1;
               p3 = (if remaining_time p2 = 0 then p2\<lparr>completion_time := t2\<rparr> else p2);
               completed = (if remaining_time p2 = 0 then st_completed s @ [cur]
                            else st_completed s);
               tline = st_timeline s;
               tline' = (if tline \<noteq> [] \<and> entry_label (last tline) = label p3
                            \<and> entry_end (last tline) = start_time
                         then tline[length tline - 1 :=
                                (entry_label (last tline), entry_start (last tline), t2)]
                         else tline @ [(label p3, start_time, t2)])
           in \<lparr>st_processes = ps[cur := p3], st_time = t2, st_completed = completed,
               st_timeline = tline'\<rparr>)"

text \<open>The loop may run forever (a process that never becomes runnable): \<open>None\<close>.\<close>

partial_function (option) stcf_loop :: "stcf_state \<Rightarrow> stcf_state option" where
  "stcf_loop s =
     (if length (st_completed s) < length (st_processes s) then stcf_loop (stcf_step s)
      else Some s)"

declare stcf_loop.simps [code]

definition stcf_schedule :: "simulator \<Rightarrow> ((error + averages) \<times> simulator) option" where
  "stcf_schedule sim =
     (let s1 = reset_processes sim
      in case stcf_loop \<lparr>st_processes = processes s1, st_time = 0, st_completed = [],
                         st_timeline = timeline s1\<rparr> of
           None \<Rightarrow> None
         | Some st \<Rightarrow>
             (let s3 = calculate_metrics
                         (s1\<lparr>processes := st_processes st, timeline := st_timeline st\<rparr>)
              in Some (print_results s3, s3)))"

section \<open>Round Robin\<close>

text \<open>
  The ready queue holds positions in \<^verbatim>\<open>self.processes\<close>; \<^verbatim>\<open>in_queue\<close> is the set of the
  pids queued.
\<close>

record rr_state =
  rr_processes :: "process list"
  rr_time :: int
  rr_queue :: "nat list"
  rr_completed :: "nat list"
  rr_in_queue :: "int set"
  rr_timeline :: "entry list"

text \<open>The loop before the \<^verbatim>\<open>while\<close>: every process that has arrived at time 0.\<close>

definition rr_initial :: "process list \<Rightarrow> int \<Rightarrow> nat list \<times> int set" where
  "rr_initial ps current_time =
     fold (\<lambda>i (queue, in_queue).
             if arrival_time (ps ! i) \<le> current_time
             then (queue @ [i], insert (pid (ps ! i)) in_queue)
             else (queue, in_queue))
       [0..<length ps] ([], {})"

text \<open>
  The two admission scans of the loop body. The second one also skips the process that
  has just run (\<open>cur = Some i\<close>); the first has no such test (\<open>cur = None\<close>).
\<close>

definition rr_admit ::
  "process list \<Rightarrow> int \<Rightarrow> nat option \<Rightarrow> nat list \<times> int set \<Rightarrow> nat list \<times> int set" where
  "rr_admit ps current_time cur =
     fold (\<lambda>i (queue, in_queue).
             if arrival_time (ps ! i) \<le> current_time \<and> pid (ps ! i) \<notin> in_queue
                \<and> remaining_time (ps ! i) > 0 \<and> cur \<noteq> Some i
             then (queue @ [i], insert (pid (ps ! i)) in_queue)
             else (queue, in_queue))
       [0..<length ps]"

text \<open>
  One iteration of the loop body. \<^verbatim>\<open>in_queue.remove\<close> raises \<^verbatim>\<open>KeyError\<close> when the pid
  is not in the set.
\<close>

definition rr_step :: "int \<Rightarrow> rr_state \<Rightarrow> error + rr_state" where
  "rr_step quantum s =
     (let ps = rr_processes s; current_time = rr_time s;
          (queue1, in_queue1) = rr_admit ps current_time None (rr_queue s, rr_in_queue s)
      in if queue1 = [] then
           Inr (s\<lparr>rr_time := current_time + 1, rr_queue := queue1, rr_in_queue := in_queue1\<rparr>)
         else
           let cur = hd queue1; queue2 = tl queue1; p = ps ! cur
           in if pid p \<notin> in_queue1 then Inl KeyError
              else
                let in_queue2 = in_queue1 - {pid p};
                    p1 = (if first_run p = - 1
                          then p\<lparr>first_run := current_time,
                                 response_time := current_time - arrival_time p\<rparr>
                          else p);
                    execution_time = min quantum (remaining_time p1);
                    start_time = current_time;
                    p2 = p1\<lparr>remaining_time := remaining_time p1 - execution_time\<rparr>;
                    t2 = current_time + execution_time;
                    tline = rr_timeline s @ [(label p2, start_time, t2)];
                    ps2 = ps[cur := p2];
                    (queue3, in_queue3) = rr_admit ps2 t2 (Some cur) (queue2, in_queue2)
                in if remaining_time p2 = 0 then
                     Inr \<lparr>rr_processes = ps2[cur := p2\<lparr>completion_time := t2\<rparr>],
                          rr_time = t2, rr_queue = queue3,
                          rr_completed = rr_completed s @ [cur],
                          rr_in_queue = in_queue3, rr_timeline = tline\<rparr>
                   else
                     Inr \<lparr>rr_processes = ps2, rr_time = t2, rr_queue = queue3 @ [cur],
                          rr_completed = rr_completed s,
                          rr_in_queue = insert (pid p2) in_queue3, rr_timeline = tline\<rparr>)"

text \<open>
  The \<^verbatim>\<open>while\<close> loop. An exception leaves the loop with the simulator as it was when
  the exception was raised; a run that never ends is \<open>None\<close>.
\<close>

partial_function (option) rr_loop :: "int \<Rightarrow> rr_state \<Rightarrow> (error option \<times> rr_state) option" where
  "rr_loop quantum s =
     (if rr_queue s \<noteq> [] \<or> length (rr_completed s) < length (rr_processes s) then
        (case rr_step quantum s of
           Inl e \<Rightarrow> Some (Some e, s)
         | Inr s' \<Rightarrow> rr_loop quantum s')
      else Some (None, s))"

declare rr_loop.simps [code]

definition rr_schedule :: "simulator \<Rightarrow> int \<Rightarrow> ((error + averages) \<times> simulator) option" where
  "rr_schedule sim quantum =
     (let s1 = reset_processes sim;
          current_time = 0;
          (queue, in_queue) = rr_initial (processes s1) current_time
      in case rr_loop quantum
                \<lparr>rr_processes = processes s1, rr_time = current_time, rr_queue = queue,
                 rr_completed = [], rr_in_queue = in_queue, rr_timeline = timeline s1\<rparr> of
           None \<Rightarrow> None
         | Some (Some e, st) \<Rightarrow>
             Some (Inl e, s1\<lparr>processes := rr_processes st, timeline := rr_timeline st\<rparr>)
         | Some (None, st) \<Rightarrow>
             (let s3 = calculate_metrics
                         (s1\<lparr>processes := rr_processes st, timeline := rr_timeline st\<rparr>)
              in Some (print_results s3, s3)))"

text \<open>The process list of \<^verbatim>\<open>main\<close>.\<close>

definition main_processes :: "process list" where
  "main_processes = [Process 1 0 5, Process 2 1 3, Process 3 2 8, Process 4 3 6]"

section \<open>Properties of timelines\<close>

text \<open>The entries of a timeline that are not idle intervals.\<close>

definition executions :: "entry list \<Rightarrow> entry list" where
  "executions tline = filter (\<lambda>e. entry_label e \<noteq> IDLE) tline"

text \<open>The three fields that specify a process.\<close>

definition spec :: "process \<Rightarrow> int \<times> int \<times> int" where
  "spec p = (pid p, arrival_time p, burst_time p)"

section \<open>The loop bodies in closed form\<close>

text \<open>
  Auxiliary functions for the proofs. \<open>run_for t e p\<close> is the process \<open>p\<close> after the
  code of a dispatch at time \<open>t\<close> (first-run bookkeeping) and \<open>e\<close> units of
  execution; \<open>finish\<close> records the completion time once nothing remains;
  \<open>rr_dispatch\<close> is the part of the Round-Robin loop body after the idle test and the
  membership test of \<^verbatim>\<open>in_queue.remove\<close>. Lemma \<open>rr_step_eq\<close> below shows that
  \<^const>\<open>rr_step\<close> is built from them.
\<close>

definition run_for :: "int \<Rightarrow> int \<Rightarrow> process \<Rightarrow> process" where
  "run_for t e p =
     (if first_run p = - 1
      then p\<lparr>first_run := t, response_time := t - arrival_time p\<rparr>
      else p)\<lparr>remaining_time := remaining_time p - e\<rparr>"

definition finish :: "int \<Rightarrow> process \<Rightarrow> process" where
  "finish t p = (if remaining_time p = 0 then p\<lparr>completion_time := t\<rparr> else p)"

definition rr_dispatch :: "int \<Rightarrow> rr_state \<Rightarrow> nat list \<Rightarrow> int set \<Rightarrow> rr_state" where
  "rr_dispatch quantum s q1 i1 =
     (let ps = rr_processes s; t = rr_time s; cur = hd q1; p = ps ! cur;
          e = min quantum (remaining_time p); p2 = run_for t e p;
          adm = rr_admit (ps[cur := p2]) (t + e) (Some cur) (tl q1, i1 - {pid p})
      in \<lparr>rr_processes = ps[cur := finish (t + e) p2], rr_time = t + e,
          rr_queue = fst adm @ (if remaining_time p2 = 0 then [] else [cur]),
          rr_completed = rr_completed s @ (if remaining_time p2 = 0 then [cur] else []),
          rr_in_queue = (if remaining_time p2 = 0 then snd adm else insert (pid p) (snd adm)),
          rr_timeline = rr_timeline s @ [(label p, t, t + e)]\<rparr>)"

text \<open>A process list whose arrival order differs from its input order.\<close>

definition order_example :: "process list" where
  "order_example = [Process 1 3 2, Process 2 0 4, Process 3 3 1]"

text \<open>
  \<open>m\<close> is the first element of \<open>xs\<close> whose key is minimal: every element before it has
  a strictly larger key, no element after it has a smaller one.
\<close>

definition first_min :: "('a \<Rightarrow> int) \<Rightarrow> 'a list \<Rightarrow> 'a \<Rightarrow> bool" where
  "first_min key xs m \<longleftrightarrow>
     (\<exists>us vs. xs = us @ m # vs \<and> (\<forall>u\<in>set us. key m < key u) \<and> (\<forall>v\<in>set vs. key m \<le> key v))"

text \<open>Three processes, the last two with the same burst time.\<close>

definition tie_example :: "process list" where
  "tie_example = [Process 7 0 3, Process 5 2 2, Process 3 1 2]"

section \<open>Properties of runs\<close>

text \<open>
  Valid input, the busy time of a timeline (the total length of its execution entries),
  timelines without gaps (\<open>contiguous_from\<close>) and timelines that are only ordered
  (\<open>ordered_from\<close>), the makespan, and the metric properties of a process. \<open>whole_run\<close>
  is the update FIFO and SJF make to a process they run to completion.
\<close>

definition valid_input :: "process list \<Rightarrow> bool" where
  "valid_input ps \<longleftrightarrow>
     distinct (map pid ps) \<and> (\<forall>p\<in>set ps. 0 < burst_time p \<and> 0 \<le> arrival_time p)"

definition busy :: "entry list \<Rightarrow> int" where
  "busy tline = sum_list (map (\<lambda>e. entry_end e - entry_start e) (executions tline))"

definition end_of :: "int \<Rightarrow> entry list \<Rightarrow> int" where
  "end_of t0 tline = (if tline = [] then t0 else entry_end (last tline))"

fun contiguous_from :: "int \<Rightarrow> entry list \<Rightarrow> bool" where
  "contiguous_from t [] = True"
| "contiguous_from t (e # es) =
     (entry_start e = t \<and> entry_start e < entry_end e \<and> contiguous_from (entry_end e) es)"

fun ordered_from :: "int \<Rightarrow> entry list \<Rightarrow> bool" where
  "ordered_from t [] = True"
| "ordered_from t (e # es) =
     (t \<le> entry_start e \<and> entry_start e < entry_end e \<and> ordered_from (entry_end e) es)"

definition makespan :: "process list \<Rightarrow> int" where
  "makespan ps = Max (set (map completion_time ps))"

definition dispatched_ok :: "process \<Rightarrow> bool" where
  "dispatched_ok p \<longleftrightarrow>
     arrival_time p \<le> first_run p \<and> response_time p = first_run p - arrival_time p
     \<and> first_run p + burst_time p \<le> completion_time p"

definition metrics_ok :: "process \<Rightarrow> bool" where
  "metrics_ok p \<longleftrightarrow>
     0 \<le> waiting_time p \<and> 0 \<le> response_time p \<and> response_time p \<le> waiting_time p
     \<and> burst_time p \<le> turnaround_time p
     \<and> turnaround_time p = completion_time p - arrival_time p
     \<and> waiting_time p = turnaround_time p - burst_time p
     \<and> response_time p = first_run p - arrival_time p"

definition whole_run :: "int \<Rightarrow> process \<Rightarrow> process" where
  "whole_run t p = p\<lparr>response_time := t - arrival_time p, first_run := t,
                      completion_time := t + burst_time p\<rparr>"

text \<open>Names for the three expressions of the SJF loop body.\<close>

definition sjf_available :: "process list \<Rightarrow> int \<Rightarrow> nat list \<Rightarrow> nat list" where
  "sjf_available ps t rem = filter (\<lambda>i. arrival_time (ps ! i) \<le> t) rem"

definition sjf_shortest :: "process list \<Rightarrow> int \<Rightarrow> nat list \<Rightarrow> nat" where
  "sjf_shortest ps t rem = py_min (\<lambda>i. burst_time (ps ! i)) (sjf_available ps t rem)"

definition sjf_next_arrival :: "process list \<Rightarrow> nat list \<Rightarrow> int" where
  "sjf_next_arrival ps rem = min_list (map (\<lambda>i. arrival_time (ps ! i)) rem)"

text \<open>
  The timeline update of STCF in closed form, and the dispatching branch of its loop
  body. Lemma \<open>stcf_step_eq\<close> below shows that \<^const>\<open>stcf_step\<close> is built from them.
\<close>

definition merge_entry :: "entry list \<Rightarrow> string \<Rightarrow> int \<Rightarrow> int \<Rightarrow> entry list" where
  "merge_entry tline l s e =
     (if tline \<noteq> [] \<and> entry_label (last tline) = l \<and> entry_end (last tline) = s
      then butlast tline @ [(l, entry_start (last tline), e)]
      else tline @ [(l, s, e)])"

definition stcf_current :: "process list \<Rightarrow> int \<Rightarrow> nat" where
  "stcf_current ps t = py_min (\<lambda>i. remaining_time (ps ! i)) (stcf_available ps t)"

definition stcf_dispatch :: "stcf_state \<Rightarrow> stcf_state" where
  "stcf_dispatch s =
     (let ps = st_processes s; t = st_time s; cur = stcf_current ps t; p2 = run_for t 1 (ps ! cur)
      in \<lparr>st_processes = ps[cur := finish (t + 1) p2], st_time = t + 1,
          st_completed = st_completed s @ (if remaining_time p2 = 0 then [cur] else []),
          st_timeline = merge_entry (st_timeline s) (label (ps ! cur)) t (t + 1)\<rparr>)"

text \<open>
  The state of one process during a preemptive run at time \<open>t\<close>: the remaining time is
  within bounds; a process not yet dispatched has all its burst left; a dispatched one
  has its first run and response time set and has run no more than the time elapsed
  since; a finished one has its completion time set.
\<close>

definition proc_ok :: "int \<Rightarrow> process \<Rightarrow> bool" where
  "proc_ok t p \<longleftrightarrow>
     0 \<le> remaining_time p \<and> remaining_time p \<le> burst_time p
     \<and> (if first_run p = - 1 then remaining_time p = burst_time p
         else arrival_time p \<le> first_run p
              \<and> response_time p = first_run p - arrival_time p
              \<and> first_run p + (burst_time p - remaining_time p) \<le> t)
     \<and> (remaining_time p = 0 \<longrightarrow> first_run p + burst_time p \<le> completion_time p)"

section \<open>Loop invariants of the preemptive policies\<close>

text \<open>
  The invariants of the \<^verbatim>\<open>while\<close> loops of STCF and Round Robin on valid input, in
  parts: the process states, the list \<^verbatim>\<open>completed\<close>, the busy time of the timeline,
  and the order and the end of the timeline.
\<close>

definition procs_inv :: "process list \<Rightarrow> process list \<Rightarrow> int \<Rightarrow> bool" where
  "procs_inv ps0 ps t \<longleftrightarrow>
     valid_input ps0 \<and> map spec ps = map spec ps0 \<and> (\<forall>p\<in>set ps. proc_ok t p)"

definition completed_inv :: "process list \<Rightarrow> nat list \<Rightarrow> bool" where
  "completed_inv ps completed \<longleftrightarrow>
     distinct completed
     \<and> set completed = {i. i < length ps \<and> remaining_time (ps ! i) = 0}"

definition busy_inv :: "process list \<Rightarrow> entry list \<Rightarrow> bool" where
  "busy_inv ps tline \<longleftrightarrow>
     busy tline + sum_list (map remaining_time ps) = sum_list (map burst_time ps)"

definition span_inv :: "process list \<Rightarrow> int \<Rightarrow> entry list \<Rightarrow> bool" where
  "span_inv ps t tline \<longleftrightarrow>
     ordered_from 0 tline \<and> end_of 0 tline \<le> t
     \<and> (\<forall>i<length ps. remaining_time (ps ! i) = 0 \<longrightarrow> completion_time (ps ! i) \<le> end_of 0 tline)
     \<and> ((\<forall>i<length ps. remaining_time (ps ! i) = 0) \<and> ps \<noteq> []
          \<longrightarrow> (\<exists>i<length ps. completion_time (ps ! i) = end_of 0 tline))"

definition run_update :: "process list \<Rightarrow> nat \<Rightarrow> int \<Rightarrow> int \<Rightarrow> process list" where
  "run_update ps cur t e = ps[cur := finish (t + e) (run_for t e (ps ! cur))]"

text \<open>
  For STCF in addition: adjacent entries have different labels; the last entry belongs
  to a process that had arrived before the entry ended; and when the clock has moved
  past the end of the last entry, every process that arrived before now is finished.
\<close>

definition merge_inv :: "process list \<Rightarrow> int \<Rightarrow> entry list \<Rightarrow> bool" where
  "merge_inv ps t tline \<longleftrightarrow>
     distinct_adj (map entry_label tline)
     \<and> (tline \<noteq> [] \<longrightarrow>
          (\<exists>i<length ps. entry_label (last tline) = label (ps ! i)
                \<and> arrival_time (ps ! i) < entry_end (last tline)))
     \<and> (tline \<noteq> [] \<and> entry_end (last tline) < t \<longrightarrow>
          (\<forall>i<length ps. arrival_time (ps ! i) < t \<longrightarrow> remaining_time (ps ! i) = 0))"

definition stcf_inv :: "process list \<Rightarrow> stcf_state \<Rightarrow> bool" where
  "stcf_inv ps0 s \<longleftrightarrow>
     procs_inv ps0 (st_processes s) (st_time s)
     \<and> completed_inv (st_processes s) (st_completed s)
     \<and> busy_inv (st_processes s) (st_timeline s)
     \<and> span_inv (st_processes s) (st_time s) (st_timeline s)
     \<and> merge_inv (st_processes s) (st_time s) (st_timeline s)"

text \<open>The quantity that decreases in every iteration of the two loops.\<close>

definition run_measure :: "process list \<Rightarrow> int \<Rightarrow> nat" where
  "run_measure ps t =
     nat (sum_list (map remaining_time ps)) + nat (Max (set (map arrival_time ps)) - t)"

text \<open>
  The positions an admission scan of Round Robin appends to the queue when the pids are
  distinct, and the invariant of the queue: its positions are distinct, each holds an
  arrived, unfinished process, and \<^verbatim>\<open>in_queue\<close> is the set of their pids.
\<close>

definition rr_eligible :: "process list \<Rightarrow> int \<Rightarrow> nat option \<Rightarrow> int set \<Rightarrow> nat list" where
  "rr_eligible ps t cur in_queue =
     filter (\<lambda>i. arrival_time (ps ! i) \<le> t \<and> pid (ps ! i) \<notin> in_queue
                 \<and> 0 < remaining_time (ps ! i) \<and> cur \<noteq> Some i) [0..<length ps]"

definition queue_inv :: "process list \<Rightarrow> int \<Rightarrow> nat list \<Rightarrow> int set \<Rightarrow> bool" where
  "queue_inv ps t queue in_queue \<longleftrightarrow>
     distinct queue
     \<and> (\<forall>i\<in>set queue. i < length ps \<and> arrival_time (ps ! i) \<le> t \<and> 0 < remaining_time (ps ! i))
     \<and> in_queue = (\<lambda>i. pid (ps ! i)) ` set queue"

definition rr_inv :: "process list \<Rightarrow> rr_state \<Rightarrow> bool" where
  "rr_inv ps0 s \<longleftrightarrow>
     procs_inv ps0 (rr_processes s) (rr_time s)
     \<and> completed_inv (rr_processes s) (rr_completed s)
     \<and> busy_inv (rr_processes s) (rr_timeline s)
     \<and> span_inv (rr_processes s) (rr_time s) (rr_timeline s)
     \<and> queue_inv (rr_processes s) (rr_time s) (rr_queue s) (rr_in_queue s)"

text \<open>
  The state after a dispatch from the queue \<open>q1\<close> (the queue after the first admission
  scan), written with the positions admitted by the second scan.
\<close>

definition rr_slice :: "int \<Rightarrow> rr_state \<Rightarrow> nat list \<Rightarrow> int" where
  "rr_slice quantum s q1 = min quantum (remaining_time (rr_processes s ! hd q1))"

definition rr_arrivals :: "int \<Rightarrow> rr_state \<Rightarrow> nat list \<Rightarrow> int set \<Rightarrow> nat list" where
  "rr_arrivals quantum s q1 i1 =
     rr_eligible (run_update (rr_processes s) (hd q1) (rr_time s) (rr_slice quantum s q1))
       (rr_time s + rr_slice quantum s q1) (Some (hd q1))
       (i1 - {pid (rr_processes s ! hd q1)})"

text \<open>The state of the Round-Robin loop of \<^verbatim>\<open>main\<close> when the \<^verbatim>\<open>while\<close> is first entered.\<close>

definition rr_main_start :: rr_state where
  "rr_main_start =
     \<lparr>rr_processes = main_processes, rr_time = 0, rr_queue = [0], rr_completed = [],
      rr_in_queue = {1}, rr_timeline = []\<rparr>"

text \<open>
  The state in which the \<^verbatim>\<open>while\<close> loop of \<^verbatim>\<open>stcf_schedule\<close> is first entered on a process
  list, and what the call returns for an outcome of the loop. The same for
  \<^verbatim>\<open>rr_schedule\<close>.
\<close>

definition stcf_entry :: "process list \<Rightarrow> stcf_state" where
  "stcf_entry ps =
     \<lparr>st_processes = map (\<lambda>p. Process (pid p) (arrival_time p) (burst_time p)) ps,
      st_time = 0, st_completed = [], st_timeline = []\<rparr>"

definition stcf_return ::
  "process list \<Rightarrow> stcf_state option \<Rightarrow> ((error + averages) \<times> simulator) option" where
  "stcf_return ps r =
     (case r of
        None \<Rightarrow> None
      | Some st \<Rightarrow>
          (let s3 = calculate_metrics
                      \<lparr>original_processes = ps, processes = st_processes st,
                       timeline = st_timeline st\<rparr>
           in Some (print_results s3, s3)))"

definition rr_entry :: "process list \<Rightarrow> rr_state" where
  "rr_entry ps =
     (let ps1 = map (\<lambda>p. Process (pid p) (arrival_time p) (burst_time p)) ps
      in \<lparr>rr_processes = ps1, rr_time = 0, rr_queue = fst (rr_initial ps1 0),
          rr_completed = [], rr_in_queue = snd (rr_initial ps1 0), rr_timeline = []\<rparr>)"

definition rr_return ::
  "process list \<Rightarrow> (error option \<times> rr_state) option
     \<Rightarrow> ((error + averages) \<times> simulator) option" where
  "rr_return ps r =
     (case r of
        None \<Rightarrow> None
      | Some (Some e, st) \<Rightarrow>
          Some (Inl e, \<lparr>original_processes = ps, processes = rr_processes st,
                        timeline = rr_timeline st\<rparr>)
      | Some (None, st) \<Rightarrow>
          (let s3 = calculate_metrics
                      \<lparr>original_processes = ps, processes = rr_processes st,
                       timeline = rr_timeline st\<rparr>
           in Some (print_results s3, s3)))"

text \<open>
  The run of \<open>tie_example\<close> at time 3, when the first process has finished and the two
  others, of equal burst time, have arrived: the process list, and the state of the STCF
  loop.
\<close>

definition tie_processes :: "process list" where
  "tie_processes =
     [(Process 7 0 3)\<lparr>first_run := 0, completion_time := 3\<rparr>, Process 5 2 2, Process 3 1 2]"

definition tie_state :: stcf_state where
  "tie_state =
     \<lparr>st_processes = [(Process 7 0 3)\<lparr>remaining_time := 0, first_run := 0, completion_time := 3\<rparr>,
                      Process 5 2 2, Process 3 1 2],
      st_time = 3, st_completed = [0], st_timeline = [(''P7'', 0, 3)]\<rparr>"

text \<open>
  The selections of a whole SJF run, read off the execution entries of its timeline:
  the process of the \<open>m\<close>-th entry had arrived when the entry starts and, among the
  processes that had arrived by then and have no entry before it, has the least burst
  time and, of those with that burst time, the first position in the input.
\<close>

definition sjf_choice :: "process list \<Rightarrow> entry list \<Rightarrow> bool" where
  "sjf_choice ps ex \<longleftrightarrow>
     (\<forall>m<length ex. \<exists>k<length ps.
         entry_label (ex ! m) = label (ps ! k)
         \<and> arrival_time (ps ! k) \<le> entry_start (ex ! m)
         \<and> (\<forall>j<length ps. label (ps ! j) \<notin> entry_label ` set (take m ex)
                  \<and> arrival_time (ps ! j) \<le> entry_start (ex ! m) \<longrightarrow>
               burst_time (ps ! k) \<le> burst_time (ps ! j)
               \<and> (burst_time (ps ! j) = burst_time (ps ! k) \<longrightarrow> k \<le> j)))"

section \<open>Labels are faithful\<close>


lemma digit_char_inj: "a < 10 \<Longrightarrow> b < 10 \<Longrightarrow> digit_char a = digit_char b \<Longrightarrow> a = b"
proof -
  have "distinct ''0123456789''" by simp
  moreover assume "a < 10" "b < 10" "digit_char a = digit_char b"
  ultimately show "a = b"
    unfolding digit_char_def by (simp add: nth_eq_iff_index_eq)
qed

lemma digit_char_not_minus: "d < 10 \<Longrightarrow> digit_char d \<noteq> CHR ''-''"
proof -
  assume "d < 10"
  then have "digit_char d \<in> set ''0123456789''"
    unfolding digit_char_def by (intro nth_mem) simp
  then show ?thesis by auto
qed

lemma str_nat_not_Nil: "str_nat n \<noteq> []"
  by (subst str_nat.simps) simp

lemma str_nat_inj: "str_nat n = str_nat m \<Longrightarrow> n = m"
proof (induction n arbitrary: m rule: str_nat.induct)
  case (1 n)
  show ?case
  proof (cases "n < 10")
    case True
    then have n: "str_nat n = [digit_char n]" by (subst str_nat.simps) simp
    show ?thesis
    proof (cases "m < 10")
      case mlt: True
      then have "str_nat m = [digit_char m]" by (subst str_nat.simps) simp
      with n 1(2) True mlt show ?thesis by (auto dest: digit_char_inj)
    next
      case False
      then have "str_nat m = str_nat (m div 10) @ [digit_char (m mod 10)]"
        by (subst str_nat.simps) simp
      with n 1(2) show ?thesis using str_nat_not_Nil [of "m div 10"] by auto
    qed
  next
    case False
    then have n: "str_nat n = str_nat (n div 10) @ [digit_char (n mod 10)]"
      by (subst str_nat.simps) simp
    show ?thesis
    proof (cases "m < 10")
      case True
      then have "str_nat m = [digit_char m]" by (subst str_nat.simps) simp
      with n 1(2) show ?thesis using str_nat_not_Nil [of "n div 10"] by auto
    next
      case mge: False
      then have "str_nat m = str_nat (m div 10) @ [digit_char (m mod 10)]"
        by (subst str_nat.simps) simp
      with n 1(2) have eq: "str_nat (n div 10) = str_nat (m div 10)"
        and d: "digit_char (n mod 10) = digit_char (m mod 10)" by simp_all
      from 1(1) [OF False eq] have "n div 10 = m div 10" .
      moreover from d have "n mod 10 = m mod 10" by (intro digit_char_inj) simp_all
      ultimately show ?thesis by (metis div_mult_mod_eq)
    qed
  qed
qed

lemma hd_str_nat_not_minus: "hd (str_nat n) \<noteq> CHR ''-''"
proof (induction n rule: str_nat.induct)
  case (1 n)
  show ?case
  proof (cases "n < 10")
    case True
    then show ?thesis by (subst str_nat.simps) (simp add: digit_char_not_minus)
  next
    case False
    with 1 show ?thesis by (subst str_nat.simps) (simp add: str_nat_not_Nil)
  qed
qed

lemma str_int_inj: "str_int i = str_int j \<Longrightarrow> i = j"
proof -
  assume eq: "str_int i = str_int j"
  have neg: "CHR ''-'' # str_nat a \<noteq> str_nat b" for a b
    using hd_str_nat_not_minus [of b] by (metis list.sel(1))
  show "i = j"
  proof (cases "i < 0")
    case True
    show ?thesis
    proof (cases "j < 0")
      case jneg: True
      with True eq have "nat (- i) = nat (- j)" by (auto simp: str_int_def dest: str_nat_inj)
      with True jneg show ?thesis by simp
    next
      case False
      with True eq neg show ?thesis by (simp add: str_int_def)
    qed
  next
    case False
    show ?thesis
    proof (cases "j < 0")
      case True
      with False eq neg [of "nat (- j)" "nat i"] show ?thesis by (simp add: str_int_def)
    next
      case jpos: False
      with False eq have "nat i = nat j" by (auto simp: str_int_def dest: str_nat_inj)
      with False jpos show ?thesis by simp
    qed
  qed
qed

lemma label_eq_iff: "label p = label q \<longleftrightarrow> pid p = pid q"
  by (auto simp: label_def dest: str_int_inj)

lemma label_not_IDLE: "label p \<noteq> IDLE"
  by (simp add: label_def IDLE_def)



section \<open>Basic facts\<close>


lemma executions_append [simp]: "executions (xs @ ys) = executions xs @ executions ys"
  by (simp add: executions_def)

lemma executions_simps [simp]:
  "executions [] = []"
  "executions [(IDLE, s, e)] = []"
  "executions [(label p, s, e)] = [(label p, s, e)]"
  by (simp_all add: executions_def entry_label_def label_not_IDLE)

lemma print_results_Nil:
  "processes sim = [] \<Longrightarrow> print_results sim = Inl ZeroDivisionError"
  by (simp add: print_results_def py_truediv_def Let_def)

lemma label_update [simp]:
  "label (p\<lparr>response_time := a\<rparr>) = label p"
  "label (p\<lparr>first_run := a\<rparr>) = label p"
  "label (p\<lparr>completion_time := a\<rparr>) = label p"
  "label (p\<lparr>remaining_time := a\<rparr>) = label p"
  "label (p\<lparr>turnaround_time := a\<rparr>) = label p"
  "label (p\<lparr>waiting_time := a\<rparr>) = label p"
  by (simp_all add: label_def)

lemma fifo_loop_Cons:
  "fifo_loop (p # ps) t tline =
     (let t1 = max t (arrival_time p);
          tl1 = (if t < arrival_time p then tline @ [(IDLE, t, arrival_time p)] else tline);
          r = fifo_loop ps (t1 + burst_time p) (tl1 @ [(label p, t1, t1 + burst_time p)])
      in (p\<lparr>response_time := t1 - arrival_time p, first_run := t1,
            completion_time := t1 + burst_time p\<rparr> # fst r, snd r))"
  by (simp add: Let_def split_beta max_def)

declare fifo_loop.simps(2) [simp del]

lemma fifo_loop_length: "length (fst (fifo_loop ps t tline)) = length ps"
  by (induction ps arbitrary: t tline) (simp_all add: fifo_loop_Cons Let_def)

lemma fifo_loop_executions:
  "length (executions (snd (fifo_loop ps t tline))) = length (executions tline) + length ps"
  by (induction ps arbitrary: t tline) (simp_all add: fifo_loop_Cons Let_def)

lemma Suc_length_remove1: "x \<in> set xs \<Longrightarrow> Suc (length (remove1 x xs)) = length xs"
  using length_pos_if_in_set [of x xs] by (simp add: length_remove1)

declare py_min.simps [simp del]

lemma sjf_loop_length: "length (fst (sjf_loop ps t rem tline)) = length ps"
proof (induction ps t rem tline rule: sjf_loop.induct)
  case (1 ps t rem tline)
  show ?case
    by (subst sjf_loop.simps) (use 1 in \<open>simp add: Let_def\<close>)
qed

lemma sjf_loop_executions:
  "length (executions (snd (sjf_loop ps t rem tline))) = length (executions tline) + length rem"
proof (induction ps t rem tline rule: sjf_loop.induct)
  case (1 ps t rem tline)
  let ?av = "filter (\<lambda>i. arrival_time (ps ! i) \<le> t) rem"
  show ?case
  proof (cases "rem = []")
    case True
    then show ?thesis by (subst sjf_loop.simps) simp
  next
    case False
    show ?thesis
    proof (cases "?av = []")
      case True
      with False 1(1) [OF False refl True refl] show ?thesis
        by (subst sjf_loop.simps) (simp add: Let_def)
    next
      case av: False
      then have "py_min (\<lambda>i. burst_time (ps ! i)) ?av \<in> set ?av" by (rule py_min_in_set)
      then have "py_min (\<lambda>i. burst_time (ps ! i)) ?av \<in> set rem" by simp
      then have "Suc (length (remove1 (py_min (\<lambda>i. burst_time (ps ! i)) ?av) rem)) = length rem"
        by (rule Suc_length_remove1)
      with False av 1(2) [OF False refl av refl refl refl refl refl refl] show ?thesis
        by (subst sjf_loop.simps) (simp add: Let_def)
    qed
  qed
qed

subsection \<open>Runs start from the original list\<close>

lemma reset_processes_cong:
  "original_processes a = original_processes b \<Longrightarrow> reset_processes a = reset_processes b"
  by (cases a, cases b) (simp add: reset_processes_def)

lemma original_reset [simp]: "original_processes (reset_processes sim) = original_processes sim"
  by (simp add: reset_processes_def)

lemma original_calculate_metrics [simp]:
  "original_processes (calculate_metrics sim) = original_processes sim"
  by (simp add: calculate_metrics_def)

lemma fifo_schedule_original:
  "original_processes (snd (fifo_schedule sim)) = original_processes sim"
  by (simp add: fifo_schedule_def Let_def split_beta)

lemma sjf_schedule_original:
  "original_processes (snd (sjf_schedule sim)) = original_processes sim"
  by (simp add: sjf_schedule_def Let_def split_beta)

lemma stcf_schedule_original:
  "stcf_schedule sim = Some (r, sim') \<Longrightarrow> original_processes sim' = original_processes sim"
  by (auto simp: stcf_schedule_def Let_def split: option.splits)

lemma rr_schedule_original:
  "rr_schedule sim q = Some (r, sim') \<Longrightarrow> original_processes sim' = original_processes sim"
  by (auto simp: rr_schedule_def Let_def split_beta split: option.splits)

lemma schedule_cong:
  assumes "original_processes a = original_processes b"
  shows "fifo_schedule a = fifo_schedule b" "sjf_schedule a = sjf_schedule b"
    "stcf_schedule a = stcf_schedule b" "rr_schedule a q = rr_schedule b q"
  using reset_processes_cong [OF assms]
  by (simp_all add: fifo_schedule_def sjf_schedule_def stcf_schedule_def rr_schedule_def)

subsection \<open>The specification fields never change\<close>

lemma spec_update [simp]:
  "spec (p\<lparr>response_time := a\<rparr>) = spec p"
  "spec (p\<lparr>first_run := a\<rparr>) = spec p"
  "spec (p\<lparr>completion_time := a\<rparr>) = spec p"
  "spec (p\<lparr>remaining_time := a\<rparr>) = spec p"
  "spec (p\<lparr>turnaround_time := a\<rparr>) = spec p"
  "spec (p\<lparr>waiting_time := a\<rparr>) = spec p"
  by (simp_all add: spec_def)

lemma spec_Process [simp]: "spec (Process (pid p) (arrival_time p) (burst_time p)) = spec p"
  by (simp add: spec_def Process_def)

lemma spec_metrics [simp]: "spec (metrics p) = spec p"
  by (simp add: metrics_def Let_def)

lemma map_spec_update:
  "spec q = spec (ps ! i) \<Longrightarrow> map spec (ps[i := q]) = map spec ps"
  by (cases "i < length ps") (simp_all add: map_update list_update_same_conv list_update_beyond)

lemma map_spec_reset [simp]:
  "map spec (processes (reset_processes sim)) = map spec (original_processes sim)"
  by (simp add: reset_processes_def)

lemma map_spec_calculate_metrics [simp]:
  "map spec (processes (calculate_metrics sim)) = map spec (processes sim)"
  by (simp add: calculate_metrics_def)

lemma fifo_loop_spec: "map spec (fst (fifo_loop ps t tline)) = map spec ps"
  by (induction ps arbitrary: t tline) (simp_all add: fifo_loop_Cons Let_def)

lemma sjf_loop_spec: "map spec (fst (sjf_loop ps t rem tline)) = map spec ps"
proof (induction ps t rem tline rule: sjf_loop.induct)
  case (1 ps t rem tline)
  show ?case
    by (subst sjf_loop.simps) (use 1 in \<open>simp add: Let_def map_spec_update\<close>)
qed

lemma stcf_step_spec: "map spec (st_processes (stcf_step s)) = map spec (st_processes s)"
  by (simp add: stcf_step_def Let_def map_spec_update)

lemma stcf_loop_rule:
  assumes "stcf_loop s = Some s'" and "I s"
    and step: "\<And>x. I x \<Longrightarrow> length (st_completed x) < length (st_processes x) \<Longrightarrow> I (stcf_step x)"
  shows "I s' \<and> \<not> length (st_completed s') < length (st_processes s')"
proof -
  have "I s \<longrightarrow> I s' \<and> \<not> length (st_completed s') < length (st_processes s')"
  proof (rule stcf_loop.raw_induct
      [where P = "\<lambda>a b. I a \<longrightarrow> I b \<and> \<not> length (st_completed b) < length (st_processes b)",
        OF _ assms(1)], goal_cases)
    case (1 loop x y)
    show ?case
    proof (cases "length (st_completed x) < length (st_processes x)")
      case True
      with 1(2) have "loop (stcf_step x) = Some y" by simp
      with 1(1) step True show ?thesis by blast
    next
      case False
      with 1(2) show ?thesis by simp
    qed
  qed
  with assms(2) show ?thesis by simp
qed

lemma stcf_loop_spec:
  assumes "stcf_loop s = Some s'"
  shows "map spec (st_processes s') = map spec (st_processes s)"
proof -
  have "(\<lambda>x. map spec (st_processes x) = map spec (st_processes s)) s'
        \<and> \<not> length (st_completed s') < length (st_processes s')"
    by (rule stcf_loop_rule [OF assms]) (simp_all only: stcf_step_spec)
  then show ?thesis by simp
qed

lemma remaining_run_for [simp]: "remaining_time (run_for t e p) = remaining_time p - e"
  by (simp add: run_for_def)

lemma pid_run_for [simp]: "pid (run_for t e p) = pid p"
  by (simp add: run_for_def)

lemma label_run_for [simp]: "label (run_for t e p) = label p"
  by (simp add: label_def)

lemma spec_run_for [simp]: "spec (run_for t e p) = spec p"
  by (simp add: run_for_def)

lemma spec_finish [simp]: "spec (finish t p) = spec p"
  by (simp add: finish_def)

lemma rr_step_eq:
  "rr_step quantum s =
     (let adm = rr_admit (rr_processes s) (rr_time s) None (rr_queue s, rr_in_queue s)
      in if fst adm = [] then
           Inr (s\<lparr>rr_time := rr_time s + 1, rr_queue := fst adm, rr_in_queue := snd adm\<rparr>)
         else if pid (rr_processes s ! hd (fst adm)) \<notin> snd adm then Inl KeyError
         else Inr (rr_dispatch quantum s (fst adm) (snd adm)))"
proof -
  obtain q1 i1 where a:
    "rr_admit (rr_processes s) (rr_time s) None (rr_queue s, rr_in_queue s) = (q1, i1)"
    by (cases "rr_admit (rr_processes s) (rr_time s) None (rr_queue s, rr_in_queue s)")
  define p where "p = rr_processes s ! hd q1"
  show ?thesis
  proof (cases "first_run p = - 1")
    case True
    then show ?thesis
      unfolding rr_step_def rr_dispatch_def run_for_def finish_def a Let_def split_beta fst_conv snd_conv
        p_def [symmetric]
      by (simp add: p_def [symmetric])
  next
    case False
    then show ?thesis
      unfolding rr_step_def rr_dispatch_def run_for_def finish_def a Let_def split_beta fst_conv snd_conv
        p_def [symmetric]
      by (simp add: p_def [symmetric])
  qed
qed

lemma rr_step_spec:
  assumes "rr_step q s = Inr s'"
  shows "map spec (rr_processes s') = map spec (rr_processes s)"
  using assms unfolding rr_step_eq Let_def
  by (auto simp: rr_dispatch_def Let_def map_spec_update split: if_splits)

lemma rr_loop_rule:
  assumes "rr_loop q s = Some (e, s')" and "I s"
    and step: "\<And>x y. I x \<Longrightarrow> rr_step q x = Inr y \<Longrightarrow> I y"
  shows "I s'"
proof -
  have "q = q \<longrightarrow> I s \<longrightarrow> I (snd (e, s'))"
  proof (rule rr_loop.raw_induct [where P = "\<lambda>q' a b. q' = q \<longrightarrow> I a \<longrightarrow> I (snd b)",
        OF _ assms(1)], goal_cases)
    case (1 loop q' x y)
    show ?case
    proof (intro impI)
      assume q: "q' = q" and ix: "I x"
      show "I (snd y)"
      proof (cases "rr_queue x \<noteq> [] \<or> length (rr_completed x) < length (rr_processes x)")
        case True
        show ?thesis
        proof (cases "rr_step q x")
          case (Inl err)
          with True 1(2) q ix show ?thesis by auto
        next
          case (Inr z)
          with True 1(2) q have "loop q z = Some y" by simp
          moreover from Inr ix step have "I z" by blast
          ultimately show ?thesis using 1(1) by blast
        qed
      next
        case False
        with 1(2) ix show ?thesis by auto
      qed
    qed
  qed
  with assms(2) show ?thesis by simp
qed

lemma rr_loop_spec:
  assumes "rr_loop q s = Some (e, s')"
  shows "map spec (rr_processes s') = map spec (rr_processes s)"
proof -
  have "(\<lambda>x. map spec (rr_processes x) = map spec (rr_processes s)) s'"
    by (rule rr_loop_rule [OF assms]) (simp_all only: rr_step_spec)
  then show ?thesis by simp
qed

lemma fifo_schedule_spec:
  "map spec (processes (snd (fifo_schedule sim)))
     = map spec (sort_key arrival_time (processes (reset_processes sim)))"
  by (simp add: fifo_schedule_def Let_def split_beta fifo_loop_spec)

lemma sjf_schedule_spec:
  "map spec (processes (snd (sjf_schedule sim))) = map spec (original_processes sim)"
  by (simp add: sjf_schedule_def Let_def split_beta sjf_loop_spec)

lemma stcf_schedule_spec:
  "stcf_schedule sim = Some (r, sim') \<Longrightarrow>
     map spec (processes sim') = map spec (original_processes sim)"
  by (auto simp: stcf_schedule_def Let_def split: option.splits dest!: stcf_loop_spec)

lemma rr_schedule_spec:
  "rr_schedule sim q = Some (r, sim') \<Longrightarrow>
     map spec (processes sim') = map spec (original_processes sim)"
  by (auto simp: rr_schedule_def Let_def split_beta split: option.splits dest!: rr_loop_spec)

lemma arrival_spec: "arrival_time p = fst (snd (spec p))"
  by (simp add: spec_def)

lemma filter_spec:
  "filter (\<lambda>x. fst (snd x) = k) (map spec xs) = map spec (filter (\<lambda>p. arrival_time p = k) xs)"
  by (induction xs) (simp_all add: spec_def)

subsection \<open>Python's \<open>min\<close> returns the first minimum\<close>

lemma first_min_single: "first_min key [b] b"
  unfolding first_min_def by (intro exI [of _ "[]"]) simp

lemma first_min_keep:
  assumes "first_min key (b # ys) m" and "\<not> key y < key b"
  shows "first_min key (b # y # ys) m"
proof -
  from assms(1) obtain us vs where xs: "b # ys = us @ m # vs"
    and us: "\<forall>u\<in>set us. key m < key u" and vs: "\<forall>v\<in>set vs. key m \<le> key v"
    unfolding first_min_def by blast
  show ?thesis
  proof (cases us)
    case Nil
    with xs have "m = b" "vs = ys" by simp_all
    with vs assms(2) have "b # y # ys = [] @ m # (y # ys) \<and> (\<forall>v\<in>set (y # ys). key m \<le> key v)"
      by simp
    then show ?thesis unfolding first_min_def by (metis empty_iff list.set(1))
  next
    case (Cons u us')
    with xs have b: "u = b" and ys: "ys = us' @ m # vs" by simp_all
    from us Cons b have "key m < key b" by simp
    with assms(2) have "key m < key y" by simp
    with us Cons b ys have "b # y # ys = (b # y # us') @ m # vs
        \<and> (\<forall>u\<in>set (b # y # us'). key m < key u)"
      by simp
    with vs show ?thesis unfolding first_min_def by blast
  qed
qed

lemma first_min_replace:
  assumes "first_min key (y # ys) m" and "key y < key b"
  shows "first_min key (b # y # ys) m"
proof -
  from assms(1) obtain us vs where xs: "y # ys = us @ m # vs"
    and us: "\<forall>u\<in>set us. key m < key u" and vs: "\<forall>v\<in>set vs. key m \<le> key v"
    unfolding first_min_def by blast
  have "key m \<le> key y"
  proof (cases us)
    case Nil
    with xs show ?thesis by simp
  next
    case (Cons u us')
    with xs us show ?thesis by simp
  qed
  with assms(2) have "key m < key b" by simp
  with us xs have "b # y # ys = (b # us) @ m # vs \<and> (\<forall>u\<in>set (b # us). key m < key u)"
    by simp
  with vs show ?thesis unfolding first_min_def by blast
qed

lemma fold_first_min:
  "first_min key (b # ys) (fold (\<lambda>y best. if key y < key best then y else best) ys b)"
proof (induction ys arbitrary: b)
  case Nil
  show ?case by (simp add: first_min_single)
next
  case (Cons y ys)
  show ?case
  proof (cases "key y < key b")
    case True
    with Cons [of y] show ?thesis by (simp add: first_min_replace)
  next
    case False
    with Cons [of b] show ?thesis by (simp add: first_min_keep)
  qed
qed

lemma py_min_first: "xs \<noteq> [] \<Longrightarrow> first_min key xs (py_min key xs)"
  by (cases xs) (simp_all add: py_min.simps fold_first_min)

lemma py_min_least:
  fixes xs :: "nat list"
  assumes "xs \<noteq> []" and "sorted_wrt (<) xs" and "j \<in> set xs"
  shows "key (py_min key xs) \<le> key j \<and> (key j = key (py_min key xs) \<longrightarrow> py_min key xs \<le> j)"
proof -
  define m where "m = py_min key xs"
  from py_min_first [OF assms(1), of key] obtain us vs where
    xs: "xs = us @ m # vs"
    and us: "\<forall>u\<in>set us. key m < key u"
    and vs: "\<forall>v\<in>set vs. key m \<le> key v"
    unfolding first_min_def m_def by blast
  from assms(2) have lt: "\<forall>v\<in>set vs. m < v"
    unfolding xs by (simp add: sorted_wrt_append)
  from assms(3) have "j \<in> set us \<or> j = m \<or> j \<in> set vs"
    unfolding xs by auto
  then have "key m \<le> key j \<and> (key j = key m \<longrightarrow> m \<le> j)"
  proof (elim disjE)
    assume "j \<in> set us"
    with us have "key m < key j" by blast
    then show ?thesis by simp
  next
    assume "j = m"
    then show ?thesis by simp
  next
    assume "j \<in> set vs"
    with vs lt have "key m \<le> key j" "m < j" by blast+
    then show ?thesis by simp
  qed
  then show ?thesis unfolding m_def .
qed

lemma stcf_available_iff:
  "j \<in> set (stcf_available ps t) \<longleftrightarrow>
     j < length ps \<and> arrival_time (ps ! j) \<le> t \<and> 0 < remaining_time (ps ! j)"
  by (auto simp: stcf_available_def)

lemma stcf_available_sorted: "sorted_wrt (<) (stcf_available ps t)"
  unfolding stcf_available_def by (rule sorted_wrt_filter) (simp add: sorted_wrt_upt)

subsection \<open>Timelines and metrics\<close>

lemma busy_simps [simp]:
  "busy [] = 0"
  "busy (xs @ ys) = busy xs + busy ys"
  "busy [(IDLE, s, e)] = 0"
  "busy [(label p, s, e)] = e - s"
  by (simp_all add: busy_def entry_end_def entry_start_def)

lemma end_of_snoc [simp]: "end_of t0 (tline @ [(l, s, e)]) = e"
  by (simp add: end_of_def entry_end_def)

lemma end_of_Nil [simp]: "end_of t0 [] = t0"
  by (simp add: end_of_def)

lemma end_of_Cons: "end_of t0 (x # xs) = end_of (entry_end x) xs"
  by (simp add: end_of_def)

lemma contiguous_snoc:
  "contiguous_from t0 (tline @ [(l, s, e)])
     \<longleftrightarrow> contiguous_from t0 tline \<and> end_of t0 tline = s \<and> s < e"
  by (induction tline arbitrary: t0)
     (auto simp: end_of_Cons entry_start_def entry_end_def)

lemma ordered_snoc:
  "ordered_from t0 (tline @ [(l, s, e)])
     \<longleftrightarrow> ordered_from t0 tline \<and> end_of t0 tline \<le> s \<and> s < e"
  by (induction tline arbitrary: t0)
     (auto simp: end_of_Cons entry_start_def entry_end_def)

lemma contiguous_ordered: "contiguous_from t tline \<Longrightarrow> ordered_from t tline"
  by (induction tline arbitrary: t) auto

lemma dispatched_metrics: "dispatched_ok p \<Longrightarrow> metrics_ok (metrics p)"
  by (simp add: dispatched_ok_def metrics_ok_def metrics_def Let_def)

lemma whole_run_ok: "arrival_time p \<le> t \<Longrightarrow> dispatched_ok (whole_run t p)"
  by (simp add: dispatched_ok_def whole_run_def)

lemma whole_run_simps [simp]:
  "spec (whole_run t p) = spec p" "label (whole_run t p) = label p"
  "burst_time (whole_run t p) = burst_time p" "arrival_time (whole_run t p) = arrival_time p"
  "pid (whole_run t p) = pid p" "completion_time (whole_run t p) = t + burst_time p"
  by (simp_all add: whole_run_def)

lemma fifo_loop_step:
  "fifo_loop (p # ps) t tline =
     (let t1 = max t (arrival_time p);
          r = fifo_loop ps (t1 + burst_time p)
                ((if t < arrival_time p then tline @ [(IDLE, t, arrival_time p)] else tline)
                 @ [(label p, t1, t1 + burst_time p)])
      in (whole_run t1 p # fst r, snd r))"
  by (simp add: fifo_loop_Cons Let_def whole_run_def)

subsection \<open>FIFO\<close>

lemma fifo_loop_busy:
  "busy (snd (fifo_loop ps t tline)) = busy tline + sum_list (map burst_time ps)"
  by (induction ps arbitrary: t tline) (simp_all add: fifo_loop_step Let_def)

lemma fifo_loop_dispatched:
  "\<forall>p\<in>set (fst (fifo_loop ps t tline)). dispatched_ok p"
  by (induction ps arbitrary: t tline) (simp_all add: fifo_loop_step Let_def whole_run_ok)

lemma fifo_loop_contiguous:
  assumes "contiguous_from t0 tline" and "end_of t0 tline = t" and "\<forall>p\<in>set ps. 0 < burst_time p"
  shows "contiguous_from t0 (snd (fifo_loop ps t tline))"
  using assms
proof (induction ps arbitrary: t tline)
  case Nil
  then show ?case by simp
next
  case (Cons p ps)
  let ?t1 = "max t (arrival_time p)"
  let ?tl = "(if t < arrival_time p then tline @ [(IDLE, t, arrival_time p)] else tline)
             @ [(label p, ?t1, ?t1 + burst_time p)]"
  from Cons.prems have "contiguous_from t0 ?tl"
    by (simp add: contiguous_snoc max_def)
  moreover have "end_of t0 ?tl = ?t1 + burst_time p" by simp
  moreover from Cons.prems have "\<forall>p\<in>set ps. 0 < burst_time p" by simp
  ultimately have "contiguous_from t0 (snd (fifo_loop ps (?t1 + burst_time p) ?tl))"
    by (rule Cons.IH)
  then show ?case by (simp add: fifo_loop_step Let_def)
qed

lemma fifo_loop_completion_ge:
  assumes "\<forall>p\<in>set ps. 0 \<le> burst_time p"
  shows "\<forall>q\<in>set (fst (fifo_loop ps t tline)). t \<le> completion_time q"
  using assms
proof (induction ps arbitrary: t tline)
  case Nil
  then show ?case by simp
next
  case (Cons p ps)
  let ?t1 = "max t (arrival_time p)"
  let ?tl = "(if t < arrival_time p then tline @ [(IDLE, t, arrival_time p)] else tline)
             @ [(label p, ?t1, ?t1 + burst_time p)]"
  from Cons.prems have b: "0 \<le> burst_time p" and r: "\<forall>p\<in>set ps. 0 \<le> burst_time p" by simp_all
  have "\<forall>q\<in>set (fst (fifo_loop ps (?t1 + burst_time p) ?tl)). ?t1 + burst_time p \<le> completion_time q"
    using r by (rule Cons.IH)
  with b have "\<forall>q\<in>set (fst (fifo_loop ps (?t1 + burst_time p) ?tl)). t \<le> completion_time q"
    by fastforce
  with b show ?case by (simp add: fifo_loop_step Let_def)
qed

lemma makespan_Cons:
  "makespan (p # ps) = (if ps = [] then completion_time p else max (completion_time p) (makespan ps))"
  by (simp add: makespan_def)

lemma makespan_ge:
  "ps \<noteq> [] \<Longrightarrow> \<forall>q\<in>set ps. t \<le> completion_time q \<Longrightarrow> t \<le> makespan ps"
  unfolding makespan_def by (cases ps) (auto simp: Max_ge_iff)

lemma fifo_loop_makespan:
  assumes "ps \<noteq> []" and "\<forall>p\<in>set ps. 0 \<le> burst_time p"
  shows "end_of t0 (snd (fifo_loop ps t tline)) = makespan (fst (fifo_loop ps t tline))"
  using assms
proof (induction ps arbitrary: t tline)
  case Nil
  then show ?case by simp
next
  case (Cons p ps)
  let ?t1 = "max t (arrival_time p)"
  let ?tl = "(if t < arrival_time p then tline @ [(IDLE, t, arrival_time p)] else tline)
             @ [(label p, ?t1, ?t1 + burst_time p)]"
  let ?r = "fifo_loop ps (?t1 + burst_time p) ?tl"
  from Cons.prems have r: "\<forall>p\<in>set ps. 0 \<le> burst_time p" by simp
  show ?case
  proof (cases "ps = []")
    case True
    then show ?thesis by (simp add: fifo_loop_step Let_def makespan_Cons)
  next
    case False
    then have e: "end_of t0 (snd ?r) = makespan (fst ?r)" using r by (rule Cons.IH)
    have ne: "fst ?r \<noteq> []" using False fifo_loop_length [of ps "?t1 + burst_time p" ?tl] by auto
    have "\<forall>q\<in>set (fst ?r). ?t1 + burst_time p \<le> completion_time q"
      using r by (rule fifo_loop_completion_ge)
    with ne have "?t1 + burst_time p \<le> makespan (fst ?r)" by (rule makespan_ge)
    with e ne show ?thesis by (simp add: fifo_loop_step Let_def makespan_Cons max_def)
  qed
qed


lemma entry_label_fst: "entry_label = fst"
  by (rule ext) (simp add: entry_label_def)

lemma fifo_loop_distinct_adj:
  assumes "distinct (map pid ps)" and "distinct_adj (map entry_label tline)"
    and "tline \<noteq> [] \<longrightarrow> entry_label (last tline) \<noteq> IDLE \<and> entry_label (last tline) \<notin> label ` set ps"
  shows "distinct_adj (map entry_label (snd (fifo_loop ps t tline)))"
  using assms
proof (induction ps arbitrary: t tline)
  case Nil
  then show ?case by simp
next
  case (Cons p ps)
  let ?t1 = "max t (arrival_time p)"
  let ?tl = "(if t < arrival_time p then tline @ [(IDLE, t, arrival_time p)] else tline)
             @ [(label p, ?t1, ?t1 + burst_time p)]"
  from Cons.prems(1) have d: "distinct (map pid ps)" and np: "pid p \<notin> pid ` set ps" by simp_all
  from Cons.prems(3) have l: "tline \<noteq> [] \<longrightarrow> entry_label (last tline) \<noteq> IDLE
      \<and> entry_label (last tline) \<noteq> label p" by simp
  have a: "distinct_adj (map entry_label ?tl)"
    using Cons.prems(2) l
    by (auto simp: distinct_adj_append_iff entry_label_fst last_map label_not_IDLE
          label_not_IDLE [symmetric])
  have "label p \<notin> label ` set ps"
    using np by (auto simp: label_eq_iff)
  then have b: "?tl \<noteq> [] \<longrightarrow> entry_label (last ?tl) \<noteq> IDLE \<and> entry_label (last ?tl) \<notin> label ` set ps"
    by (simp add: entry_label_fst label_not_IDLE)
  have "distinct_adj (map entry_label (snd (fifo_loop ps (?t1 + burst_time p) ?tl)))"
    using d a b by (rule Cons.IH)
  then show ?case by (simp add: fifo_loop_step Let_def)
qed

lemma sum_list_insort_key:
  fixes f :: "'a \<Rightarrow> int"
  shows "sum_list (map f (insort_key k x xs)) = f x + sum_list (map f xs)"
  by (induction xs) simp_all

lemma sum_list_sort_key:
  fixes f :: "'a \<Rightarrow> int"
  shows "sum_list (map f (sort_key k xs)) = sum_list (map f xs)"
  by (induction xs) (simp_all add: sum_list_insort_key)

lemma valid_input_spec:
  "map spec ps = map spec ps' \<Longrightarrow> valid_input ps = valid_input ps'"
proof -
  assume a: "map spec ps = map spec ps'"
  have "map pid ps = map (fst \<circ> spec) ps" "map pid ps' = map (fst \<circ> spec) ps'"
    "map arrival_time ps = map (fst \<circ> snd \<circ> spec) ps"
    "map arrival_time ps' = map (fst \<circ> snd \<circ> spec) ps'"
    "map burst_time ps = map (snd \<circ> snd \<circ> spec) ps"
    "map burst_time ps' = map (snd \<circ> snd \<circ> spec) ps'"
    by (simp_all add: spec_def comp_def)
  with a have e: "map pid ps = map pid ps'" "map arrival_time ps = map arrival_time ps'"
    "map burst_time ps = map burst_time ps'"
    by (metis map_map)+
  have "valid_input qs \<longleftrightarrow> distinct (map pid qs) \<and> list_all (\<lambda>b. 0 < b) (map burst_time qs)
      \<and> list_all (\<lambda>a. 0 \<le> a) (map arrival_time qs)" for qs
    by (auto simp: valid_input_def list_all_iff)
  with e show ?thesis by (simp only:)
qed

lemma sum_burst_spec:
  "map spec ps = map spec ps' \<Longrightarrow> sum_list (map burst_time ps) = sum_list (map burst_time ps')"
proof -
  assume a: "map spec ps = map spec ps'"
  have "map burst_time ps = map (snd \<circ> snd \<circ> spec) ps"
    "map burst_time ps' = map (snd \<circ> snd \<circ> spec) ps'"
    by (simp_all add: spec_def comp_def)
  with a have "map burst_time ps = map burst_time ps'" by (metis map_map)
  then show ?thesis by simp
qed

lemma valid_input_sort_key: "valid_input (sort_key k ps) = valid_input ps"
proof -
  have "distinct (map pid (sort_key k ps)) = distinct (map pid ps)"
    by (simp add: distinct_map)
  then show ?thesis by (simp add: valid_input_def)
qed


lemma valid_input_reset [simp]:
  "valid_input (processes (reset_processes sim)) = valid_input (original_processes sim)"
  by (rule valid_input_spec) simp

lemma sum_burst_reset [simp]:
  "sum_list (map burst_time (processes (reset_processes sim)))
     = sum_list (map burst_time (original_processes sim))"
  by (rule sum_burst_spec) simp

lemma timeline_reset [simp]: "timeline (reset_processes sim) = []"
  by (simp add: reset_processes_def)

lemma length_reset [simp]:
  "length (processes (reset_processes sim)) = length (original_processes sim)"
  by (simp add: reset_processes_def)

lemma completion_metrics [simp]: "completion_time (metrics p) = completion_time p"
  by (simp add: metrics_def Let_def)

lemma makespan_metrics [simp]: "makespan (map metrics ps) = makespan ps"
  by (simp add: makespan_def comp_def)

lemma fifo_schedule_processes:
  "processes (snd (fifo_schedule sim))
     = map metrics (fst (fifo_loop (sort_key arrival_time (processes (reset_processes sim))) 0 []))"
  by (simp add: fifo_schedule_def Let_def split_beta calculate_metrics_def)

lemma fifo_schedule_timeline:
  "timeline (snd (fifo_schedule sim))
     = snd (fifo_loop (sort_key arrival_time (processes (reset_processes sim))) 0 [])"
  by (simp add: fifo_schedule_def Let_def split_beta calculate_metrics_def)

lemma fifo_busy:
  "busy (timeline (snd (fifo_schedule sim))) = sum_list (map burst_time (original_processes sim))"
  by (simp add: fifo_schedule_timeline fifo_loop_busy sum_list_sort_key)

lemma fifo_metrics_ok: "\<forall>p\<in>set (processes (snd (fifo_schedule sim))). metrics_ok p"
  using fifo_loop_dispatched
  by (auto simp: fifo_schedule_processes intro!: dispatched_metrics)

lemma fifo_timeline_ok:
  assumes "valid_input (original_processes sim)" and "original_processes sim \<noteq> []"
  shows "contiguous_from 0 (timeline (snd (fifo_schedule sim)))"
    and "distinct_adj (map entry_label (timeline (snd (fifo_schedule sim))))"
    and "end_of 0 (timeline (snd (fifo_schedule sim))) = makespan (processes (snd (fifo_schedule sim)))"
proof -
  let ?ps = "sort_key arrival_time (processes (reset_processes sim))"
  from assms(1) have v: "valid_input ?ps" by (simp add: valid_input_sort_key)
  then have b: "\<forall>p\<in>set ?ps. 0 < burst_time p" and d: "distinct (map pid ?ps)"
    unfolding valid_input_def by blast+
  from b have b0: "\<forall>p\<in>set ?ps. 0 \<le> burst_time p" by fastforce
  from assms(2) have "length ?ps \<noteq> 0" by simp
  then have ne: "?ps \<noteq> []" by fastforce
  show "contiguous_from 0 (timeline (snd (fifo_schedule sim)))"
    unfolding fifo_schedule_timeline
    by (rule fifo_loop_contiguous [OF _ _ b]) simp_all
  show "distinct_adj (map entry_label (timeline (snd (fifo_schedule sim))))"
    unfolding fifo_schedule_timeline
    by (rule fifo_loop_distinct_adj [OF d]) simp_all
  show "end_of 0 (timeline (snd (fifo_schedule sim))) = makespan (processes (snd (fifo_schedule sim)))"
    unfolding fifo_schedule_timeline fifo_schedule_processes makespan_metrics
    by (rule fifo_loop_makespan [OF ne b0])
qed

subsection \<open>SJF\<close>

lemma nth_update_field:
  "f q = f (ps ! k) \<Longrightarrow> f (ps[k := q] ! i) = f (ps ! i)"
  by (cases "k < length ps"; cases "i = k") (simp_all add: list_update_beyond)

lemma sjf_loop_Nil [simp]: "sjf_loop ps t [] tline = (ps, tline)"
  by (subst sjf_loop.simps) simp

lemma sjf_loop_idle:
  assumes "rem \<noteq> []" and "sjf_available ps t rem = []"
  shows "sjf_loop ps t rem tline
         = sjf_loop ps (sjf_next_arrival ps rem) rem (tline @ [(IDLE, t, sjf_next_arrival ps rem)])"
  using assms
  by (subst sjf_loop.simps) (simp add: sjf_available_def sjf_next_arrival_def Let_def)

lemma sjf_loop_run:
  assumes "rem \<noteq> []" and "sjf_available ps t rem \<noteq> []"
  shows "sjf_loop ps t rem tline
         = sjf_loop (ps[sjf_shortest ps t rem := whole_run t (ps ! sjf_shortest ps t rem)])
             (t + burst_time (ps ! sjf_shortest ps t rem)) (remove1 (sjf_shortest ps t rem) rem)
             (tline @ [(label (ps ! sjf_shortest ps t rem), t,
                        t + burst_time (ps ! sjf_shortest ps t rem))])"
  using assms
  by (subst sjf_loop.simps)
     (simp add: sjf_available_def sjf_shortest_def Let_def whole_run_def)

lemma sjf_induct [case_names Nil idle run]:
  assumes "\<And>ps t tline. P ps t [] tline"
    and "\<And>ps t rem tline. rem \<noteq> [] \<Longrightarrow> sjf_available ps t rem = [] \<Longrightarrow>
           P ps (sjf_next_arrival ps rem) rem (tline @ [(IDLE, t, sjf_next_arrival ps rem)]) \<Longrightarrow>
           P ps t rem tline"
    and "\<And>ps t rem tline. rem \<noteq> [] \<Longrightarrow> sjf_available ps t rem \<noteq> [] \<Longrightarrow>
           P (ps[sjf_shortest ps t rem := whole_run t (ps ! sjf_shortest ps t rem)])
             (t + burst_time (ps ! sjf_shortest ps t rem)) (remove1 (sjf_shortest ps t rem) rem)
             (tline @ [(label (ps ! sjf_shortest ps t rem), t,
                        t + burst_time (ps ! sjf_shortest ps t rem))]) \<Longrightarrow>
           P ps t rem tline"
  shows "P ps t rem tline"
proof (induction ps t rem tline rule: sjf_loop.induct)
  case (1 ps t rem tline)
  show ?case
  proof (cases "rem = []")
    case True
    then show ?thesis using assms(1) by simp
  next
    case False
    show ?thesis
    proof (cases "sjf_available ps t rem = []")
      case True
      have "P ps (sjf_next_arrival ps rem) rem (tline @ [(IDLE, t, sjf_next_arrival ps rem)])"
        unfolding sjf_next_arrival_def
        by (rule 1(1) [OF False refl _ refl]) (use True in \<open>simp add: sjf_available_def\<close>)
      with False True show ?thesis by (rule assms(2))
    next
      case av: False
      have "P (ps[sjf_shortest ps t rem := whole_run t (ps ! sjf_shortest ps t rem)])
             (t + burst_time (ps ! sjf_shortest ps t rem)) (remove1 (sjf_shortest ps t rem) rem)
             (tline @ [(label (ps ! sjf_shortest ps t rem), t,
                        t + burst_time (ps ! sjf_shortest ps t rem))])"
        using 1(2) [OF False refl _ refl refl refl refl refl refl] av
        by (simp add: sjf_available_def sjf_shortest_def whole_run_def)
      with False av show ?thesis by (rule assms(3))
    qed
  qed
qed

lemma sjf_shortest_in:
  assumes "sjf_available ps t rem \<noteq> []"
  shows "sjf_shortest ps t rem \<in> set rem" and "arrival_time (ps ! sjf_shortest ps t rem) \<le> t"
proof -
  from assms have "sjf_shortest ps t rem \<in> set (sjf_available ps t rem)"
    unfolding sjf_shortest_def by (rule py_min_in_set)
  then show "sjf_shortest ps t rem \<in> set rem" "arrival_time (ps ! sjf_shortest ps t rem) \<le> t"
    by (simp_all add: sjf_available_def)
qed

lemma sjf_next_arrival_gt:
  assumes "rem \<noteq> []" and "sjf_available ps t rem = []"
  shows "t < sjf_next_arrival ps rem"
proof -
  from assms(1) have "map (\<lambda>i. arrival_time (ps ! i)) rem \<noteq> []" by simp
  then have "sjf_next_arrival ps rem \<in> set (map (\<lambda>i. arrival_time (ps ! i)) rem)"
    unfolding sjf_next_arrival_def
    using Min_in [of "set (map (\<lambda>i. arrival_time (ps ! i)) rem)"] by (simp add: min_list_Min)
  then obtain i where "i \<in> set rem" "sjf_next_arrival ps rem = arrival_time (ps ! i)" by auto
  with assms(2) show ?thesis by (auto simp: sjf_available_def filter_empty_conv)
qed

lemma sjf_next_arrival_available:
  "rem \<noteq> [] \<Longrightarrow> sjf_available ps (sjf_next_arrival ps rem) rem \<noteq> []"
  unfolding sjf_available_def sjf_next_arrival_def by (rule min_list_arrived)


lemma sjf_loop_busy:
  "busy (snd (sjf_loop ps t rem tline))
     = busy tline + sum_list (map (\<lambda>i. burst_time (ps ! i)) rem)"
proof (induction ps t rem tline rule: sjf_induct)
  case (Nil ps t tline)
  show ?case by simp
next
  case (idle ps t rem tline)
  then show ?case by (simp add: sjf_loop_idle)
next
  case (run ps t rem tline)
  let ?k = "sjf_shortest ps t rem"
  have b: "burst_time (ps[?k := whole_run t (ps ! ?k)] ! i) = burst_time (ps ! i)" for i
    by (rule nth_update_field) simp
  from run(2) have "?k \<in> set rem" by (rule sjf_shortest_in)
  then have "sum_list (map (\<lambda>i. burst_time (ps ! i)) rem)
      = burst_time (ps ! ?k) + sum_list (map (\<lambda>i. burst_time (ps ! i)) (remove1 ?k rem))"
    by (rule sum_list_map_remove1)
  with run show ?case by (simp add: sjf_loop_run b)
qed

lemma sjf_loop_dispatched:
  assumes "\<forall>i\<in>set rem. i < length ps"
    and "\<forall>i<length ps. i \<notin> set rem \<longrightarrow> dispatched_ok (ps ! i)"
  shows "\<forall>p\<in>set (fst (sjf_loop ps t rem tline)). dispatched_ok p"
  using assms
proof (induction ps t rem tline rule: sjf_induct)
  case (Nil ps t tline)
  then show ?case by (auto simp: in_set_conv_nth)
next
  case (idle ps t rem tline)
  then show ?case by (simp add: sjf_loop_idle)
next
  case (run ps t rem tline)
  let ?k = "sjf_shortest ps t rem"
  let ?ps = "ps[?k := whole_run t (ps ! ?k)]"
  from run(2) have k: "?k \<in> set rem" and a: "arrival_time (ps ! ?k) \<le> t"
    by (rule sjf_shortest_in)+
  with run.prems(1) have kl: "?k < length ps" by blast
  have 1: "\<forall>i\<in>set (remove1 ?k rem). i < length ?ps"
    using run.prems(1) by (auto dest: notin_set_remove1)
  have 2: "\<forall>i<length ?ps. i \<notin> set (remove1 ?k rem) \<longrightarrow> dispatched_ok (?ps ! i)"
  proof (intro allI impI)
    fix i assume i: "i < length ?ps" "i \<notin> set (remove1 ?k rem)"
    show "dispatched_ok (?ps ! i)"
    proof (cases "i = ?k")
      case True
      with kl a show ?thesis by (simp add: whole_run_ok)
    next
      case False
      with i have "i \<notin> set rem" by simp
      with i False run.prems(2) show ?thesis by simp
    qed
  qed
  from run.IH [OF 1 2] show ?case using run(1,2) by (simp add: sjf_loop_run)
qed

lemma sjf_loop_contiguous:
  assumes "contiguous_from t0 tline" and "end_of t0 tline = t"
    and "\<forall>i\<in>set rem. 0 < burst_time (ps ! i)"
  shows "contiguous_from t0 (snd (sjf_loop ps t rem tline))"
  using assms
proof (induction ps t rem tline rule: sjf_induct)
  case (Nil ps t tline)
  then show ?case by simp
next
  case (idle ps t rem tline)
  from idle(1,2) have "t < sjf_next_arrival ps rem" by (rule sjf_next_arrival_gt)
  with idle.prems have "contiguous_from t0 (tline @ [(IDLE, t, sjf_next_arrival ps rem)])"
    by (simp add: contiguous_snoc)
  from idle.IH [OF this _ idle.prems(3)] show ?case using idle(1,2) by (simp add: sjf_loop_idle)
next
  case (run ps t rem tline)
  let ?k = "sjf_shortest ps t rem"
  let ?ps = "ps[?k := whole_run t (ps ! ?k)]"
  have b: "burst_time (?ps ! i) = burst_time (ps ! i)" for i
    by (rule nth_update_field) simp
  from run(2) have k: "?k \<in> set rem" by (rule sjf_shortest_in)
  with run.prems(3) have "0 < burst_time (ps ! ?k)" by blast
  with run.prems have 1: "contiguous_from t0 (tline @ [(label (ps ! ?k), t, t + burst_time (ps ! ?k))])"
    by (simp add: contiguous_snoc)
  have 3: "\<forall>i\<in>set (remove1 ?k rem). 0 < burst_time (?ps ! i)"
    using run.prems(3) by (auto simp: b dest: notin_set_remove1)
  from run.IH [OF 1 _ 3] show ?case using run(1,2) by (simp add: sjf_loop_run)
qed


lemma makespan_eqI:
  assumes "\<forall>i<length ps. completion_time (ps ! i) \<le> t"
    and "\<exists>i<length ps. completion_time (ps ! i) = t"
  shows "makespan ps = t"
  unfolding makespan_def
proof (rule Max_eqI)
  show "finite (set (map completion_time ps))" by simp
  fix y assume "y \<in> set (map completion_time ps)"
  with assms(1) show "y \<le> t" by (auto simp: in_set_conv_nth)
next
  from assms(2) obtain i where "i < length ps" "completion_time (ps ! i) = t" by blast
  then have "ps ! i \<in> set ps" "completion_time (ps ! i) = t" by simp_all
  then show "t \<in> set (map completion_time ps)" by force
qed

lemma distinct_pid_index:
  assumes "distinct (map pid ps)" and "i < length ps" and "j < length ps"
    and "pid (ps ! i) = pid (ps ! j)"
  shows "i = j"
  using assms nth_eq_iff_index_eq [of "map pid ps" i j] by simp

lemma sjf_loop_makespan:
  assumes "\<forall>i\<in>set rem. i < length ps \<and> 0 \<le> burst_time (ps ! i)"
    and "\<forall>i<length ps. i \<notin> set rem \<longrightarrow> completion_time (ps ! i) \<le> t"
    and "end_of t0 tline = t"
    and "rem = [] \<longrightarrow> (\<exists>i<length ps. completion_time (ps ! i) = t)"
  shows "end_of t0 (snd (sjf_loop ps t rem tline)) = makespan (fst (sjf_loop ps t rem tline))"
  using assms
proof (induction ps t rem tline rule: sjf_induct)
  case (Nil ps t tline)
  then have "makespan ps = t" by (intro makespan_eqI) simp_all
  with Nil show ?case by simp
next
  case (idle ps t rem tline)
  from idle(1,2) have "t < sjf_next_arrival ps rem" by (rule sjf_next_arrival_gt)
  with idle.prems(2) have 2: "\<forall>i<length ps. i \<notin> set rem \<longrightarrow>
      completion_time (ps ! i) \<le> sjf_next_arrival ps rem" by fastforce
  have 3: "end_of t0 (tline @ [(IDLE, t, sjf_next_arrival ps rem)]) = sjf_next_arrival ps rem"
    by simp
  from idle(1) have 4: "rem = [] \<longrightarrow> (\<exists>i<length ps. completion_time (ps ! i) = sjf_next_arrival ps rem)"
    by simp
  from idle.IH [OF idle.prems(1) 2 3 4] show ?case using idle(1,2) by (simp add: sjf_loop_idle)
next
  case (run ps t rem tline)
  let ?k = "sjf_shortest ps t rem"
  let ?ps = "ps[?k := whole_run t (ps ! ?k)]"
  let ?t = "t + burst_time (ps ! ?k)"
  have b: "burst_time (?ps ! i) = burst_time (ps ! i)" for i
    by (rule nth_update_field) simp
  from run(2) have k: "?k \<in> set rem" by (rule sjf_shortest_in)
  with run.prems(1) have kl: "?k < length ps" and kb: "0 \<le> burst_time (ps ! ?k)" by blast+
  have 1: "\<forall>i\<in>set (remove1 ?k rem). i < length ?ps \<and> 0 \<le> burst_time (?ps ! i)"
    using run.prems(1) by (auto simp: b dest: notin_set_remove1)
  have 2: "\<forall>i<length ?ps. i \<notin> set (remove1 ?k rem) \<longrightarrow> completion_time (?ps ! i) \<le> ?t"
  proof (intro allI impI)
    fix i assume i: "i < length ?ps" "i \<notin> set (remove1 ?k rem)"
    show "completion_time (?ps ! i) \<le> ?t"
    proof (cases "i = ?k")
      case True
      with kl show ?thesis by simp
    next
      case False
      with i have "i \<notin> set rem" by simp
      with i run.prems(2) have "completion_time (ps ! i) \<le> t" by simp
      with False kb show ?thesis by simp
    qed
  qed
  have 3: "end_of t0 (tline @ [(label (ps ! ?k), t, ?t)]) = ?t" by simp
  from kl have "completion_time (?ps ! ?k) = ?t" by simp
  with kl have 4: "remove1 ?k rem = [] \<longrightarrow> (\<exists>i<length ?ps. completion_time (?ps ! i) = ?t)"
    by (metis length_list_update)
  from run.IH [OF 1 2 3 4] show ?case using run(1,2) by (simp add: sjf_loop_run)
qed

lemma sjf_loop_distinct_adj:
  assumes "distinct (map pid ps)" and "distinct rem" and "\<forall>i\<in>set rem. i < length ps"
    and "distinct_adj (map entry_label tline)"
    and "tline = [] \<or> (entry_label (last tline) = IDLE \<and> sjf_available ps t rem \<noteq> [])
         \<or> (entry_label (last tline) \<noteq> IDLE
             \<and> entry_label (last tline) \<notin> (\<lambda>i. label (ps ! i)) ` set rem)"
  shows "distinct_adj (map entry_label (snd (sjf_loop ps t rem tline)))"
  using assms
proof (induction ps t rem tline rule: sjf_induct)
  case (Nil ps t tline)
  then show ?case by simp
next
  case (idle ps t rem tline)
  let ?tl = "tline @ [(IDLE, t, sjf_next_arrival ps rem)]"
  from idle(2) idle.prems(5) have "tline = [] \<or> entry_label (last tline) \<noteq> IDLE" by blast
  with idle.prems(4) have 4: "distinct_adj (map entry_label ?tl)"
    by (auto simp: distinct_adj_append_iff entry_label_fst last_map)
  from idle(1) have "sjf_available ps (sjf_next_arrival ps rem) rem \<noteq> []"
    by (rule sjf_next_arrival_available)
  then have 5: "?tl = [] \<or> (entry_label (last ?tl) = IDLE
        \<and> sjf_available ps (sjf_next_arrival ps rem) rem \<noteq> [])
      \<or> (entry_label (last ?tl) \<noteq> IDLE \<and> entry_label (last ?tl) \<notin> (\<lambda>i. label (ps ! i)) ` set rem)"
    by (simp add: entry_label_fst)
  from idle.IH [OF idle.prems(1-3) 4 5] show ?case using idle(1,2) by (simp add: sjf_loop_idle)
next
  case (run ps t rem tline)
  let ?k = "sjf_shortest ps t rem"
  let ?ps = "ps[?k := whole_run t (ps ! ?k)]"
  let ?t = "t + burst_time (ps ! ?k)"
  let ?tl = "tline @ [(label (ps ! ?k), t, ?t)]"
  from run(2) have k: "?k \<in> set rem" by (rule sjf_shortest_in)
  with run.prems(3) have kl: "?k < length ps" by blast
  have pd: "pid (?ps ! i) = pid (ps ! i)" for i
    by (rule nth_update_field) simp
  have lb: "label (?ps ! i) = label (ps ! i)" for i
    by (rule nth_update_field) simp
  have "map pid ?ps = map pid ps"
    by (rule nth_equalityI) (simp_all add: pd del: nth_list_update_eq)
  with run.prems(1) have 1: "distinct (map pid ?ps)" by simp
  from run.prems(2) have 2: "distinct (remove1 ?k rem)" by simp
  have 3: "\<forall>i\<in>set (remove1 ?k rem). i < length ?ps"
    using run.prems(3) by (auto dest: notin_set_remove1)
  from run.prems(5) k have "tline = [] \<or> entry_label (last tline) \<noteq> label (ps ! ?k)"
    using label_not_IDLE by (metis image_eqI)
  with run.prems(4) have 4: "distinct_adj (map entry_label ?tl)"
    by (auto simp: distinct_adj_append_iff entry_label_fst last_map)
  have "label (ps ! ?k) \<notin> (\<lambda>i. label (?ps ! i)) ` set (remove1 ?k rem)"
  proof
    assume "label (ps ! ?k) \<in> (\<lambda>i. label (?ps ! i)) ` set (remove1 ?k rem)"
    then obtain i where i: "i \<in> set (remove1 ?k rem)" and "label (ps ! ?k) = label (ps ! i)"
      by (auto simp: lb)
    then have e: "pid (ps ! ?k) = pid (ps ! i)" by (simp add: label_eq_iff)
    from i run.prems(2) have ne: "i \<noteq> ?k" and ir: "i \<in> set rem" by auto
    from ir run.prems(3) have "i < length ps" by blast
    with kl e run.prems(1) have "i = ?k"
      by (intro distinct_pid_index [of ps]) simp_all
    with ne show False by simp
  qed
  then have 5: "?tl = [] \<or> (entry_label (last ?tl) = IDLE \<and> sjf_available ?ps ?t (remove1 ?k rem) \<noteq> [])
      \<or> (entry_label (last ?tl) \<noteq> IDLE
          \<and> entry_label (last ?tl) \<notin> (\<lambda>i. label (?ps ! i)) ` set (remove1 ?k rem))"
    by (simp add: entry_label_fst label_not_IDLE)
  from run.IH [OF 1 2 3 4 5] show ?case using run(1,2) by (simp add: sjf_loop_run)
qed


lemma sjf_schedule_processes:
  "processes (snd (sjf_schedule sim))
     = map metrics (fst (sjf_loop (processes (reset_processes sim)) 0
                      [0..<length (processes (reset_processes sim))] []))"
  by (simp add: sjf_schedule_def Let_def split_beta calculate_metrics_def)

lemma sjf_schedule_timeline:
  "timeline (snd (sjf_schedule sim))
     = snd (sjf_loop (processes (reset_processes sim)) 0
              [0..<length (processes (reset_processes sim))] [])"
  by (simp add: sjf_schedule_def Let_def split_beta calculate_metrics_def)

lemma sum_list_nth_upt: "sum_list (map (\<lambda>i. f (ps ! i)) [0..<length ps]) = sum_list (map f ps)"
proof -
  have "map (\<lambda>i. f (ps ! i)) [0..<length ps] = map f (map ((!) ps) [0..<length ps])"
    by simp
  then show ?thesis by (simp only: map_nth)
qed

lemma sjf_busy:
  "busy (timeline (snd (sjf_schedule sim))) = sum_list (map burst_time (original_processes sim))"
  unfolding sjf_schedule_timeline sjf_loop_busy sum_list_nth_upt by simp

lemma sjf_metrics_ok: "\<forall>p\<in>set (processes (snd (sjf_schedule sim))). metrics_ok p"
proof -
  let ?ps = "processes (reset_processes sim)"
  have "\<forall>p\<in>set (fst (sjf_loop ?ps 0 [0..<length ?ps] [])). dispatched_ok p"
    by (rule sjf_loop_dispatched) simp_all
  then show ?thesis
    unfolding sjf_schedule_processes by (auto intro!: dispatched_metrics)
qed

lemma sjf_timeline_ok:
  assumes "valid_input (original_processes sim)" and "original_processes sim \<noteq> []"
  shows "contiguous_from 0 (timeline (snd (sjf_schedule sim)))"
    and "distinct_adj (map entry_label (timeline (snd (sjf_schedule sim))))"
    and "end_of 0 (timeline (snd (sjf_schedule sim))) = makespan (processes (snd (sjf_schedule sim)))"
proof -
  let ?ps = "processes (reset_processes sim)"
  from assms(1) have v: "valid_input ?ps" by simp
  then have b: "\<forall>p\<in>set ?ps. 0 < burst_time p" and d: "distinct (map pid ?ps)"
    unfolding valid_input_def by blast+
  from b have bi: "\<forall>i\<in>set [0..<length ?ps]. 0 < burst_time (?ps ! i)" by simp
  then have b0: "\<forall>i\<in>set [0..<length ?ps]. i < length ?ps \<and> 0 \<le> burst_time (?ps ! i)"
    by fastforce
  from assms(2) have ne: "[0..<length ?ps] \<noteq> []" by simp
  show "contiguous_from 0 (timeline (snd (sjf_schedule sim)))"
    unfolding sjf_schedule_timeline
    by (rule sjf_loop_contiguous [OF _ _ bi]) simp_all
  show "distinct_adj (map entry_label (timeline (snd (sjf_schedule sim))))"
    unfolding sjf_schedule_timeline
    by (rule sjf_loop_distinct_adj [OF d]) simp_all
  show "end_of 0 (timeline (snd (sjf_schedule sim))) = makespan (processes (snd (sjf_schedule sim)))"
    unfolding sjf_schedule_timeline sjf_schedule_processes makespan_metrics
    by (rule sjf_loop_makespan [OF b0]) (use ne in simp_all)
qed

subsection \<open>STCF: the loop body\<close>

lemma update_last: "xs \<noteq> [] \<Longrightarrow> xs[length xs - Suc 0 := x] = butlast xs @ [x]"
  by (induction xs rule: rev_induct) simp_all

lemma stcf_step_eq:
  "stcf_step s =
     (if stcf_available (st_processes s) (st_time s) = [] then s\<lparr>st_time := st_time s + 1\<rparr>
      else stcf_dispatch s)"
proof (cases "stcf_available (st_processes s) (st_time s) = []")
  case True
  then show ?thesis by (simp add: stcf_step_def)
next
  case False
  define p where "p = st_processes s ! stcf_current (st_processes s) (st_time s)"
  show ?thesis
  proof (cases "first_run p = - 1")
    case True
    with False show ?thesis
      unfolding stcf_step_def stcf_dispatch_def run_for_def finish_def merge_entry_def Let_def
        stcf_current_def [symmetric] p_def [symmetric]
      by (simp add: update_last)
  next
    case fr: False
    with False show ?thesis
      unfolding stcf_step_def stcf_dispatch_def run_for_def finish_def merge_entry_def Let_def
        stcf_current_def [symmetric] p_def [symmetric]
      by (simp add: update_last)
  qed
qed

lemma stcf_current_in:
  assumes "stcf_available ps t \<noteq> []"
  shows "stcf_current ps t < length ps" and "arrival_time (ps ! stcf_current ps t) \<le> t"
    and "0 < remaining_time (ps ! stcf_current ps t)"
proof -
  from assms have "stcf_current ps t \<in> set (stcf_available ps t)"
    unfolding stcf_current_def by (rule py_min_in_set)
  then show "stcf_current ps t < length ps" "arrival_time (ps ! stcf_current ps t) \<le> t"
    "0 < remaining_time (ps ! stcf_current ps t)"
    by (simp_all only: stcf_available_iff)
qed

lemma merge_entry_Nil [simp]: "merge_entry [] l s e = [(l, s, e)]"
  by (simp add: merge_entry_def)

lemma merge_entry_snoc:
  "merge_entry (xs @ [(l', s', e')]) l s e =
     (if l' = l \<and> e' = s then xs @ [(l, s', e)] else xs @ [(l', s', e'), (l, s, e)])"
  by (simp add: merge_entry_def entry_label_def entry_start_def entry_end_def)

lemma end_of_merge_entry [simp]: "end_of t0 (merge_entry tline l s e) = e"
  by (simp add: merge_entry_def end_of_def entry_end_def)

lemma last_merge_entry:
  "entry_label (last (merge_entry tline l s e)) = l"
  "entry_end (last (merge_entry tline l s e)) = e"
  by (cases tline rule: rev_cases; auto simp: merge_entry_snoc entry_label_def entry_end_def)+

lemma merge_entry_not_Nil [simp]: "merge_entry tline l s e \<noteq> []"
  by (simp add: merge_entry_def)

lemma busy_snoc:
  "busy (xs @ [x])
     = busy xs + (if entry_label x \<noteq> IDLE then entry_end x - entry_start x else 0)"
  by (simp add: busy_def executions_def)

lemma busy_merge_entry:
  assumes "l \<noteq> IDLE"
  shows "busy (merge_entry tline l s e) = busy tline + (e - s)"
proof (cases "tline \<noteq> [] \<and> entry_label (last tline) = l \<and> entry_end (last tline) = s")
  case True
  then have "busy tline = busy (butlast tline @ [last tline])" by simp
  also have "\<dots> = busy (butlast tline) + (s - entry_start (last tline))"
    using True assms by (simp only: busy_snoc) simp
  finally have a: "busy tline = busy (butlast tline) + (s - entry_start (last tline))" .
  have "busy (merge_entry tline l s e) = busy (butlast tline @ [(l, entry_start (last tline), e)])"
    using True by (simp add: merge_entry_def)
  also have "\<dots> = busy (butlast tline) + (e - entry_start (last tline))"
    using assms by (simp only: busy_snoc) (simp add: entry_label_def entry_end_def entry_start_def)
  finally show ?thesis using a by simp
next
  case False
  then have "merge_entry tline l s e = tline @ [(l, s, e)]"
    by (auto simp: merge_entry_def)
  then show ?thesis
    using assms by (simp only: busy_snoc) (simp add: entry_label_def entry_end_def entry_start_def)
qed


lemma ordered_snoc2:
  "ordered_from t0 (xs @ [(l', s', e'), (l, s, e)])
     \<longleftrightarrow> ordered_from t0 xs \<and> end_of t0 xs \<le> s' \<and> s' < e' \<and> e' \<le> s \<and> s < e"
  by (induction xs arbitrary: t0)
     (auto simp: end_of_Cons entry_start_def entry_end_def)

lemma ordered_merge_entry:
  assumes "ordered_from t0 tline" and "end_of t0 tline \<le> s" and "s < e"
  shows "ordered_from t0 (merge_entry tline l s e)"
proof (cases tline rule: rev_cases)
  case Nil
  with assms show ?thesis by (simp add: entry_start_def entry_end_def)
next
  case (snoc xs x)
  obtain l' s' e' where x: "x = (l', s', e')" by (cases x)
  from assms(1) snoc x have o: "ordered_from t0 xs" "end_of t0 xs \<le> s'" "s' < e'"
    by (simp_all add: ordered_snoc)
  show ?thesis
  proof (cases "l' = l \<and> e' = s")
    case True
    with o assms(3) snoc x show ?thesis by (simp add: merge_entry_snoc ordered_snoc)
  next
    case False
    have "ordered_from t0 (xs @ [(l', s', e'), (l, s, e)])"
      using assms(2,3) o snoc x by (simp add: ordered_snoc2)
    with False snoc x show ?thesis by (auto simp: merge_entry_snoc)
  qed
qed

lemma distinct_adj_merge_entry:
  assumes "distinct_adj (map entry_label tline)"
    and "tline \<noteq> [] \<and> entry_label (last tline) = l \<longrightarrow> entry_end (last tline) = s"
  shows "distinct_adj (map entry_label (merge_entry tline l s e))"
proof (cases tline rule: rev_cases)
  case Nil
  then show ?thesis by simp
next
  case (snoc xs x)
  obtain l' s' e' where x: "x = (l', s', e')" by (cases x)
  show ?thesis
  proof (cases "l' = l \<and> e' = s")
    case True
    with assms(1) snoc x show ?thesis
      by (simp add: merge_entry_snoc entry_label_fst)
  next
    case False
    with assms(2) snoc x have "l' \<noteq> l" by (auto simp: entry_label_def entry_end_def)
    with assms(1) snoc x show ?thesis
      by (simp add: merge_entry_snoc entry_label_fst distinct_adj_append_iff)
  qed
qed

subsection \<open>The state of a preempted process\<close>

lemma proc_ok_mono: "proc_ok t p \<Longrightarrow> t \<le> t' \<Longrightarrow> proc_ok t' p"
  by (auto simp: proc_ok_def split: if_splits)

lemma proc_ok_Process: "0 < b \<Longrightarrow> proc_ok t (Process i a b)"
  by (simp add: proc_ok_def Process_def)

lemma proc_ok_run_for:
  assumes "proc_ok t p" and "0 \<le> arrival_time p" and "arrival_time p \<le> t"
    and "0 < e" and "e \<le> remaining_time p"
  shows "proc_ok (t + e) (finish (t + e) (run_for t e p))"
proof (cases "first_run p = - 1")
  case True
  with assms show ?thesis
    by (simp add: proc_ok_def run_for_def finish_def)
next
  case False
  with assms show ?thesis
    by (simp add: proc_ok_def run_for_def finish_def)
qed

lemma proc_ok_final:
  "proc_ok t p \<Longrightarrow> remaining_time p = 0 \<Longrightarrow> 0 < burst_time p \<Longrightarrow> dispatched_ok p"
  by (auto simp: proc_ok_def dispatched_ok_def split: if_splits)

lemma finish_simps [simp]:
  "remaining_time (finish t p) = remaining_time p" "pid (finish t p) = pid p"
  "label (finish t p) = label p" "arrival_time (finish t p) = arrival_time p"
  "burst_time (finish t p) = burst_time p"
  by (simp_all add: finish_def label_def)

lemma run_for_simps [simp]:
  "arrival_time (run_for t e p) = arrival_time p" "burst_time (run_for t e p) = burst_time p"
  by (simp_all add: run_for_def)

lemma completion_finish:
  "completion_time (finish t p) = (if remaining_time p = 0 then t else completion_time p)"
  by (simp add: finish_def)

lemma completion_run_for [simp]: "completion_time (run_for t e p) = completion_time p"
  by (simp add: run_for_def)

subsection \<open>One dispatch preserves the invariants\<close>

lemma length_run_update [simp]: "length (run_update ps cur t e) = length ps"
  by (simp add: run_update_def)

lemma nth_run_update:
  "i < length ps \<Longrightarrow>
     run_update ps cur t e ! i = (if i = cur then finish (t + e) (run_for t e (ps ! cur)) else ps ! i)"
  by (simp add: run_update_def)

lemma map_spec_run_update [simp]: "map spec (run_update ps cur t e) = map spec ps"
  unfolding run_update_def by (rule map_spec_update) simp

lemma remaining_run_update:
  "i < length ps \<Longrightarrow>
     remaining_time (run_update ps cur t e ! i)
       = (if i = cur then remaining_time (ps ! cur) - e else remaining_time (ps ! i))"
  by (simp add: nth_run_update)

lemma field_run_update [simp]:
  "arrival_time (run_update ps cur t e ! i) = arrival_time (ps ! i)"
  "burst_time (run_update ps cur t e ! i) = burst_time (ps ! i)"
  "pid (run_update ps cur t e ! i) = pid (ps ! i)"
  "label (run_update ps cur t e ! i) = label (ps ! i)"
  unfolding run_update_def by (rule nth_update_field, simp)+

lemma valid_inputD:
  assumes "valid_input ps0" and "map spec ps = map spec ps0"
  shows "distinct (map pid ps)" and "\<forall>p\<in>set ps. 0 < burst_time p \<and> 0 \<le> arrival_time p"
proof -
  from assms have "valid_input ps" using valid_input_spec by blast
  then show "distinct (map pid ps)" "\<forall>p\<in>set ps. 0 < burst_time p \<and> 0 \<le> arrival_time p"
    by (simp_all add: valid_input_def)
qed

lemma procs_inv_idle: "procs_inv ps0 ps t \<Longrightarrow> t \<le> t' \<Longrightarrow> procs_inv ps0 ps t'"
  unfolding procs_inv_def using proc_ok_mono by blast

lemma procs_inv_run:
  assumes "procs_inv ps0 ps t" and "cur < length ps" and "arrival_time (ps ! cur) \<le> t"
    and "0 < e" and "e \<le> remaining_time (ps ! cur)"
  shows "procs_inv ps0 (run_update ps cur t e) (t + e)"
proof -
  from assms(1) have v: "valid_input ps0" and sp: "map spec ps = map spec ps0"
    and ok: "\<forall>p\<in>set ps. proc_ok t p" by (simp_all add: procs_inv_def)
  from assms(2) have m: "ps ! cur \<in> set ps" by simp
  with valid_inputD(2) [OF v sp] have "0 \<le> arrival_time (ps ! cur)" by blast
  with ok m assms(3-5) have new: "proc_ok (t + e) (finish (t + e) (run_for t e (ps ! cur)))"
    by (intro proc_ok_run_for) simp_all
  have "\<forall>p\<in>set (run_update ps cur t e). proc_ok (t + e) p"
  proof
    fix p assume "p \<in> set (run_update ps cur t e)"
    then have "p = finish (t + e) (run_for t e (ps ! cur)) \<or> p \<in> set ps"
      unfolding run_update_def using set_update_subset_insert [of ps cur] by blast
    with new ok assms(4) show "proc_ok (t + e) p"
      using proc_ok_mono [of t p "t + e"] by auto
  qed
  with v sp show ?thesis by (simp add: procs_inv_def)
qed

lemma completed_inv_run:
  assumes "completed_inv ps completed" and "cur < length ps" and "0 < remaining_time (ps ! cur)"
  shows "completed_inv (run_update ps cur t e)
           (completed @ (if remaining_time (ps ! cur) - e = 0 then [cur] else []))"
proof -
  let ?Z = "{i. i < length ps \<and> remaining_time (ps ! i) = 0}"
  from assms(1) have d: "distinct completed" and s: "set completed = ?Z"
    by (simp_all add: completed_inv_def)
  from assms(3) have c: "cur \<notin> ?Z" by simp
  have z: "{i. i < length (run_update ps cur t e) \<and> remaining_time (run_update ps cur t e ! i) = 0}
        = (if remaining_time (ps ! cur) - e = 0 then insert cur ?Z else ?Z)"
    using assms(2,3) by (auto simp: remaining_run_update split: if_splits)
  show ?thesis
    unfolding completed_inv_def z using d s c by auto
qed

lemma sum_list_update_int:
  fixes xs :: "int list"
  shows "k < length xs \<Longrightarrow> sum_list (xs[k := x]) = sum_list xs + x - xs ! k"
proof (induction xs arbitrary: k)
  case Nil
  then show ?case by simp
next
  case (Cons y ys)
  then show ?case by (cases k) simp_all
qed

lemma sum_remaining_run:
  assumes "cur < length ps"
  shows "sum_list (map remaining_time (run_update ps cur t e))
         = sum_list (map remaining_time ps) - e"
proof -
  have "map remaining_time (run_update ps cur t e)
        = (map remaining_time ps)[cur := remaining_time (ps ! cur) - e]"
    by (simp add: run_update_def map_update)
  with assms show ?thesis
    using sum_list_update_int [of cur "map remaining_time ps" "remaining_time (ps ! cur) - e"]
    by simp
qed

lemma sum_burst_run [simp]:
  "sum_list (map burst_time (run_update ps cur t e)) = sum_list (map burst_time ps)"
  by (rule sum_burst_spec) simp


lemma completion_run_update:
  "i < length ps \<Longrightarrow>
     completion_time (run_update ps cur t e ! i)
       = (if i = cur \<and> remaining_time (ps ! cur) - e = 0 then t + e else completion_time (ps ! i))"
  by (simp add: nth_run_update completion_finish)

lemma span_inv_idle: "span_inv ps t tline \<Longrightarrow> t \<le> t' \<Longrightarrow> span_inv ps t' tline"
  by (simp add: span_inv_def)

lemma span_inv_run:
  assumes "span_inv ps t tline" and "cur < length ps" and "0 < e"
    and "ordered_from 0 tline'" and "end_of 0 tline' = t + e"
  shows "span_inv (run_update ps cur t e) (t + e) tline'"
proof -
  from assms(1) have le: "end_of 0 tline \<le> t"
    and m: "\<forall>i<length ps. remaining_time (ps ! i) = 0 \<longrightarrow> completion_time (ps ! i) \<le> end_of 0 tline"
    by (simp_all add: span_inv_def)
  have 1: "\<forall>i<length (run_update ps cur t e). remaining_time (run_update ps cur t e ! i) = 0
      \<longrightarrow> completion_time (run_update ps cur t e ! i) \<le> end_of 0 tline'"
  proof (intro allI impI)
    fix i assume i: "i < length (run_update ps cur t e)"
      and r: "remaining_time (run_update ps cur t e ! i) = 0"
    show "completion_time (run_update ps cur t e ! i) \<le> end_of 0 tline'"
    proof (cases "i = cur")
      case True
      with i r show ?thesis by (simp add: completion_run_update remaining_run_update assms(5))
    next
      case False
      with i r have "remaining_time (ps ! i) = 0" by (simp add: remaining_run_update)
      with m i have "completion_time (ps ! i) \<le> end_of 0 tline" by simp
      with le assms(3) False i show ?thesis by (simp add: completion_run_update assms(5))
    qed
  qed
  have 2: "(\<forall>i<length (run_update ps cur t e). remaining_time (run_update ps cur t e ! i) = 0)
      \<and> run_update ps cur t e \<noteq> []
      \<longrightarrow> (\<exists>i<length (run_update ps cur t e).
            completion_time (run_update ps cur t e ! i) = end_of 0 tline')"
  proof
    assume a: "(\<forall>i<length (run_update ps cur t e). remaining_time (run_update ps cur t e ! i) = 0)
      \<and> run_update ps cur t e \<noteq> []"
    with assms(2) have "remaining_time (run_update ps cur t e ! cur) = 0" by simp
    with assms(2) have "completion_time (run_update ps cur t e ! cur) = end_of 0 tline'"
      by (simp add: completion_run_update remaining_run_update assms(5))
    with assms(2) show "\<exists>i<length (run_update ps cur t e).
            completion_time (run_update ps cur t e ! i) = end_of 0 tline'"
      by (metis length_run_update)
  qed
  from assms(4,5) 1 2 show ?thesis unfolding span_inv_def by simp
qed

lemma completed_inv_done:
  assumes "completed_inv ps completed" and "\<not> length completed < length ps"
  shows "\<forall>i<length ps. remaining_time (ps ! i) = 0"
proof -
  let ?Z = "{i. i < length ps \<and> remaining_time (ps ! i) = 0}"
  from assms(1) have d: "distinct completed" and s: "set completed = ?Z"
    by (simp_all add: completed_inv_def)
  from d have "card (set completed) = length completed" by (rule distinct_card)
  with s assms(2) have c: "length ps \<le> card ?Z" by simp
  have sub: "?Z \<subseteq> {..<length ps}" by auto
  then have "card ?Z \<le> length ps" using card_mono [of "{..<length ps}" ?Z] by simp
  with c have "card ?Z = card {..<length ps}" by simp
  with sub have "?Z = {..<length ps}" by (intro card_subset_eq) simp_all
  then show ?thesis by blast
qed

lemma completed_inv_not_done:
  assumes "completed_inv ps completed" and "length completed < length ps"
  shows "\<exists>i<length ps. remaining_time (ps ! i) \<noteq> 0"
proof (rule ccontr)
  assume "\<not> (\<exists>i<length ps. remaining_time (ps ! i) \<noteq> 0)"
  then have "{i. i < length ps \<and> remaining_time (ps ! i) = 0} = {..<length ps}" by auto
  with assms(1) have "set completed = {..<length ps}" "distinct completed"
    by (simp_all add: completed_inv_def)
  then have "length completed = length ps" using distinct_card [of completed] by simp
  with assms(2) show False by simp
qed

subsection \<open>STCF: the invariant\<close>

lemma stcf_dispatch_simps [simp]:
  "st_processes (stcf_dispatch s)
     = run_update (st_processes s) (stcf_current (st_processes s) (st_time s)) (st_time s) 1"
  "st_time (stcf_dispatch s) = st_time s + 1"
  "st_completed (stcf_dispatch s)
     = st_completed s @
       (if remaining_time (st_processes s ! stcf_current (st_processes s) (st_time s)) - 1 = 0
        then [stcf_current (st_processes s) (st_time s)] else [])"
  "st_timeline (stcf_dispatch s)
     = merge_entry (st_timeline s)
         (label (st_processes s ! stcf_current (st_processes s) (st_time s)))
         (st_time s) (st_time s + 1)"
  by (simp_all add: stcf_dispatch_def Let_def run_update_def)

lemma procs_inv_remaining:
  "procs_inv ps0 ps t \<Longrightarrow> i < length ps \<Longrightarrow> 0 \<le> remaining_time (ps ! i)"
  by (simp add: procs_inv_def proc_ok_def)

lemma stcf_inv_idle:
  assumes "stcf_inv ps0 s" and "stcf_available (st_processes s) (st_time s) = []"
  shows "stcf_inv ps0 (s\<lparr>st_time := st_time s + 1\<rparr>)"
proof -
  let ?ps = "st_processes s" and ?t = "st_time s" and ?tl = "st_timeline s"
  from assms(1) have p: "procs_inv ps0 ?ps ?t" and c: "completed_inv ?ps (st_completed s)"
    and b: "busy_inv ?ps ?tl" and sp: "span_inv ?ps ?t ?tl" and m: "merge_inv ?ps ?t ?tl"
    by (simp_all add: stcf_inv_def)
  have none: "\<forall>i<length ?ps. arrival_time (?ps ! i) < ?t + 1 \<longrightarrow> remaining_time (?ps ! i) = 0"
  proof (intro allI impI)
    fix i assume i: "i < length ?ps" and a: "arrival_time (?ps ! i) < ?t + 1"
    from assms(2) have "i \<notin> set (stcf_available ?ps ?t)" by simp
    with i a have "\<not> 0 < remaining_time (?ps ! i)" by (simp add: stcf_available_iff)
    with procs_inv_remaining [OF p i] show "remaining_time (?ps ! i) = 0" by simp
  qed
  from m none have m': "merge_inv ?ps (?t + 1) ?tl" by (simp add: merge_inv_def)
  from p have "procs_inv ps0 ?ps (?t + 1)" by (rule procs_inv_idle) simp
  moreover from sp have "span_inv ?ps (?t + 1) ?tl" by (rule span_inv_idle) simp
  ultimately show ?thesis using c b m' by (simp add: stcf_inv_def)
qed

lemma merge_inv_dispatch:
  assumes "merge_inv ps t tline" and "distinct (map pid ps)" and "end_of 0 tline \<le> t"
    and "cur < length ps" and "arrival_time (ps ! cur) \<le> t" and "0 < remaining_time (ps ! cur)"
  shows "merge_inv (run_update ps cur t 1) (t + 1) (merge_entry tline (label (ps ! cur)) t (t + 1))"
proof -
  let ?l = "label (ps ! cur)"
  from assms(1) have d: "distinct_adj (map entry_label tline)"
    and l1: "tline \<noteq> [] \<longrightarrow> (\<exists>i<length ps. entry_label (last tline) = label (ps ! i)
                \<and> arrival_time (ps ! i) < entry_end (last tline))"
    and l2: "tline \<noteq> [] \<and> entry_end (last tline) < t \<longrightarrow>
          (\<forall>i<length ps. arrival_time (ps ! i) < t \<longrightarrow> remaining_time (ps ! i) = 0)"
    by (simp_all add: merge_inv_def)
  have same: "tline \<noteq> [] \<and> entry_label (last tline) = ?l \<longrightarrow> entry_end (last tline) = t"
  proof
    assume a: "tline \<noteq> [] \<and> entry_label (last tline) = ?l"
    with l1 obtain i where i: "i < length ps" "label (ps ! i) = ?l"
      "arrival_time (ps ! i) < entry_end (last tline)" by auto
    from i(2) have "pid (ps ! i) = pid (ps ! cur)" by (simp add: label_eq_iff)
    with assms(2,4) i(1) have ic: "i = cur" by (intro distinct_pid_index [of ps]) simp_all
    from a assms(3) have le: "entry_end (last tline) \<le> t" by (simp add: end_of_def)
    show "entry_end (last tline) = t"
    proof (rule ccontr)
      assume "entry_end (last tline) \<noteq> t"
      with le have lt: "entry_end (last tline) < t" by simp
      with i(3) ic have "arrival_time (ps ! cur) < t" by simp
      with l2 a lt assms(4) have "remaining_time (ps ! cur) = 0" by blast
      with assms(6) show False by simp
    qed
  qed
  from d same have 1: "distinct_adj (map entry_label (merge_entry tline ?l t (t + 1)))"
    by (rule distinct_adj_merge_entry)
  have 2: "\<exists>i<length (run_update ps cur t 1).
      entry_label (last (merge_entry tline ?l t (t + 1))) = label (run_update ps cur t 1 ! i)
      \<and> arrival_time (run_update ps cur t 1 ! i) < entry_end (last (merge_entry tline ?l t (t + 1)))"
    using assms(4,5) by (intro exI [of _ cur]) (simp add: last_merge_entry)
  show ?thesis
    unfolding merge_inv_def using 1 2 by (simp add: last_merge_entry)
qed

lemma stcf_inv_dispatch:
  assumes "stcf_inv ps0 s" and "stcf_available (st_processes s) (st_time s) \<noteq> []"
  shows "stcf_inv ps0 (stcf_dispatch s)"
proof -
  let ?ps = "st_processes s" and ?t = "st_time s" and ?tl = "st_timeline s"
  let ?cur = "stcf_current ?ps ?t"
  from assms(1) have p: "procs_inv ps0 ?ps ?t" and c: "completed_inv ?ps (st_completed s)"
    and b: "busy_inv ?ps ?tl" and sp: "span_inv ?ps ?t ?tl" and m: "merge_inv ?ps ?t ?tl"
    by (simp_all add: stcf_inv_def)
  from assms(2) have cur: "?cur < length ?ps" and arr: "arrival_time (?ps ! ?cur) \<le> ?t"
    and rem: "0 < remaining_time (?ps ! ?cur)" by (rule stcf_current_in)+
  from rem have rem1: "1 \<le> remaining_time (?ps ! ?cur)" by simp
  from p have d: "distinct (map pid ?ps)"
    unfolding procs_inv_def using valid_inputD(1) by blast
  from sp have o: "ordered_from 0 ?tl" and le: "end_of 0 ?tl \<le> ?t" by (simp_all add: span_inv_def)
  have 1: "procs_inv ps0 (run_update ?ps ?cur ?t 1) (?t + 1)"
    using p cur arr _ rem1 by (rule procs_inv_run) simp
  have 2: "completed_inv (run_update ?ps ?cur ?t 1)
      (st_completed s @ (if remaining_time (?ps ! ?cur) - 1 = 0 then [?cur] else []))"
    using c cur rem by (rule completed_inv_run)
  have "busy (merge_entry ?tl (label (?ps ! ?cur)) ?t (?t + 1)) = busy ?tl + 1"
    using busy_merge_entry [OF label_not_IDLE, of ?tl "?ps ! ?cur" ?t "?t + 1"] by simp
  with b have 3: "busy_inv (run_update ?ps ?cur ?t 1) (merge_entry ?tl (label (?ps ! ?cur)) ?t (?t + 1))"
    by (simp add: busy_inv_def sum_remaining_run [OF cur])
  have "ordered_from 0 (merge_entry ?tl (label (?ps ! ?cur)) ?t (?t + 1))"
    using o le by (rule ordered_merge_entry) simp
  then have 4: "span_inv (run_update ?ps ?cur ?t 1) (?t + 1)
      (merge_entry ?tl (label (?ps ! ?cur)) ?t (?t + 1))"
    by (intro span_inv_run [OF sp cur]) simp_all
  have 5: "merge_inv (run_update ?ps ?cur ?t 1) (?t + 1)
      (merge_entry ?tl (label (?ps ! ?cur)) ?t (?t + 1))"
    using m d le cur arr rem by (rule merge_inv_dispatch)
  from 1 2 3 4 5 show ?thesis by (simp add: stcf_inv_def)
qed

lemma stcf_inv_step: "stcf_inv ps0 s \<Longrightarrow> stcf_inv ps0 (stcf_step s)"
  by (simp add: stcf_step_eq stcf_inv_idle stcf_inv_dispatch)

subsection \<open>STCF terminates on valid input\<close>

lemma member_le_sum_list_int:
  fixes xs :: "int list"
  shows "\<forall>x\<in>set xs. 0 \<le> x \<Longrightarrow> y \<in> set xs \<Longrightarrow> y \<le> sum_list xs"
proof (induction xs)
  case Nil
  then show ?case by simp
next
  case (Cons x xs)
  then have "0 \<le> sum_list xs" by (intro sum_list_nonneg) simp
  with Cons show ?case by auto
qed

lemma run_measure_idle:
  assumes "i < length ps" and "t < arrival_time (ps ! i)"
  shows "run_measure ps (t + 1) < run_measure ps t"
proof -
  from assms(1) have "arrival_time (ps ! i) \<in> set (map arrival_time ps)" by simp
  then have "arrival_time (ps ! i) \<le> Max (set (map arrival_time ps))" by (intro Max_ge) simp_all
  with assms(2) show ?thesis by (simp add: run_measure_def)
qed

lemma run_measure_run:
  assumes "procs_inv ps0 ps t" and "cur < length ps" and "0 < e" and "e \<le> remaining_time (ps ! cur)"
  shows "run_measure (run_update ps cur t e) (t + e) < run_measure ps t"
proof -
  from assms(1) have "\<forall>x\<in>set (map remaining_time ps). 0 \<le> x"
    by (auto simp: procs_inv_def proc_ok_def)
  moreover from assms(2) have "remaining_time (ps ! cur) \<in> set (map remaining_time ps)" by simp
  ultimately have "remaining_time (ps ! cur) \<le> sum_list (map remaining_time ps)"
    by (rule member_le_sum_list_int)
  with assms(3,4) have s: "e \<le> sum_list (map remaining_time ps)" by simp
  have "map arrival_time (run_update ps cur t e) = map arrival_time ps"
    by (rule nth_equalityI) simp_all
  with s assms(3) show ?thesis
    by (simp add: run_measure_def sum_remaining_run [OF assms(2)])
qed

lemma stcf_step_measure:
  assumes "stcf_inv ps0 s" and "length (st_completed s) < length (st_processes s)"
  shows "run_measure (st_processes (stcf_step s)) (st_time (stcf_step s))
         < run_measure (st_processes s) (st_time s)"
proof (cases "stcf_available (st_processes s) (st_time s) = []")
  case True
  let ?ps = "st_processes s" and ?t = "st_time s"
  from assms(1) have p: "procs_inv ps0 ?ps ?t" and c: "completed_inv ?ps (st_completed s)"
    by (simp_all add: stcf_inv_def)
  from completed_inv_not_done [OF c assms(2)] obtain i where
    i: "i < length ?ps" "remaining_time (?ps ! i) \<noteq> 0" by blast
  with procs_inv_remaining [OF p i(1)] have "0 < remaining_time (?ps ! i)" by simp
  moreover from True have "i \<notin> set (stcf_available ?ps ?t)" by simp
  ultimately have "?t < arrival_time (?ps ! i)" using i(1) by (simp add: stcf_available_iff)
  with i(1) have "run_measure ?ps (?t + 1) < run_measure ?ps ?t" by (rule run_measure_idle)
  with True show ?thesis by (simp add: stcf_step_eq)
next
  case False
  let ?ps = "st_processes s" and ?t = "st_time s"
  from assms(1) have p: "procs_inv ps0 ?ps ?t" by (simp add: stcf_inv_def)
  from False have cur: "stcf_current ?ps ?t < length ?ps"
    and rem: "0 < remaining_time (?ps ! stcf_current ?ps ?t)" by (rule stcf_current_in)+
  from rem have "1 \<le> remaining_time (?ps ! stcf_current ?ps ?t)" by simp
  with p cur have "run_measure (run_update ?ps (stcf_current ?ps ?t) ?t 1) (?t + 1)
      < run_measure ?ps ?t" by (intro run_measure_run) simp_all
  with False show ?thesis by (simp add: stcf_step_eq)
qed

lemma stcf_loop_total:
  assumes "stcf_inv ps0 s"
  shows "\<exists>s'. stcf_loop s = Some s' \<and> stcf_inv ps0 s'
           \<and> \<not> length (st_completed s') < length (st_processes s')"
  using assms
proof (induction "run_measure (st_processes s) (st_time s)" arbitrary: s rule: less_induct)
  case less
  show ?case
  proof (cases "length (st_completed s) < length (st_processes s)")
    case True
    from less.prems have "stcf_inv ps0 (stcf_step s)" by (rule stcf_inv_step)
    moreover from less.prems True
    have "run_measure (st_processes (stcf_step s)) (st_time (stcf_step s))
         < run_measure (st_processes s) (st_time s)" by (rule stcf_step_measure)
    ultimately have "\<exists>s'. stcf_loop (stcf_step s) = Some s' \<and> stcf_inv ps0 s'
           \<and> \<not> length (st_completed s') < length (st_processes s')"
      using less.hyps by blast
    with True show ?thesis by (subst stcf_loop.simps) simp
  next
    case False
    with less.prems show ?thesis by (subst stcf_loop.simps) simp
  qed
qed


subsection \<open>The fresh working list satisfies the invariants\<close>

lemma reset_fresh:
  assumes "p \<in> set (processes (reset_processes sim))"
  shows "remaining_time p = burst_time p" and "first_run p = - 1"
  using assms by (auto simp: reset_processes_def Process_def)

lemma procs_inv_reset:
  assumes "valid_input (original_processes sim)"
  shows "procs_inv (original_processes sim) (processes (reset_processes sim)) t"
proof -
  from assms have "valid_input (processes (reset_processes sim))" by simp
  then have b: "\<forall>p\<in>set (processes (reset_processes sim)). 0 < burst_time p"
    by (simp add: valid_input_def)
  have "\<forall>p\<in>set (processes (reset_processes sim)). proc_ok t p"
  proof
    fix p assume p: "p \<in> set (processes (reset_processes sim))"
    with b have "0 < burst_time p" by blast
    with reset_fresh [OF p] show "proc_ok t p" by (simp add: proc_ok_def)
  qed
  with assms show ?thesis by (simp add: procs_inv_def)
qed

lemma reset_remaining_pos:
  assumes "valid_input (original_processes sim)"
    and "i < length (processes (reset_processes sim))"
  shows "0 < remaining_time (processes (reset_processes sim) ! i)"
proof -
  from assms(2) have m: "processes (reset_processes sim) ! i \<in> set (processes (reset_processes sim))"
    by (rule nth_mem)
  from assms(1) have "valid_input (processes (reset_processes sim))" by simp
  with m have "0 < burst_time (processes (reset_processes sim) ! i)"
    by (simp add: valid_input_def)
  with reset_fresh(1) [OF m] show ?thesis by simp
qed

lemma completed_inv_reset:
  assumes "valid_input (original_processes sim)"
  shows "completed_inv (processes (reset_processes sim)) []"
  using reset_remaining_pos [OF assms] by (fastforce simp: completed_inv_def)

lemma busy_inv_reset: "busy_inv (processes (reset_processes sim)) []"
proof -
  have "map remaining_time (processes (reset_processes sim))
        = map burst_time (processes (reset_processes sim))"
    by (rule map_cong [OF refl]) (rule reset_fresh)
  then have "sum_list (map remaining_time (processes (reset_processes sim)))
        = sum_list (map burst_time (processes (reset_processes sim)))"
    by (rule arg_cong)
  then show ?thesis unfolding busy_inv_def by simp
qed

lemma span_inv_reset:
  assumes "valid_input (original_processes sim)"
  shows "span_inv (processes (reset_processes sim)) 0 []"
proof -
  let ?ps = "processes (reset_processes sim)"
  have 1: "\<forall>i<length ?ps. remaining_time (?ps ! i) = 0 \<longrightarrow> completion_time (?ps ! i) \<le> end_of 0 []"
    using reset_remaining_pos [OF assms] by fastforce
  have 2: "(\<forall>i<length ?ps. remaining_time (?ps ! i) = 0) \<and> ?ps \<noteq> []
          \<longrightarrow> (\<exists>i<length ?ps. completion_time (?ps ! i) = end_of 0 [])"
  proof
    assume a: "(\<forall>i<length ?ps. remaining_time (?ps ! i) = 0) \<and> ?ps \<noteq> []"
    then have l: "0 < length ?ps" by blast
    with a have "remaining_time (?ps ! 0) = 0" by blast
    with reset_remaining_pos [OF assms l] have False by simp
    then show "\<exists>i<length ?ps. completion_time (?ps ! i) = end_of 0 []" ..
  qed
  from 1 2 show ?thesis unfolding span_inv_def by simp
qed

lemma stcf_inv_initial:
  assumes "valid_input (original_processes sim)"
  shows "stcf_inv (original_processes sim)
           \<lparr>st_processes = processes (reset_processes sim), st_time = 0, st_completed = [],
            st_timeline = timeline (reset_processes sim)\<rparr>"
  using procs_inv_reset [OF assms, of 0] completed_inv_reset [OF assms] busy_inv_reset [of sim]
    span_inv_reset [OF assms]
  by (simp add: stcf_inv_def merge_inv_def)

subsection \<open>What the invariants give when every process is finished\<close>

lemma sum_list_zero_int:
  fixes xs :: "int list"
  shows "\<forall>x\<in>set xs. x = 0 \<Longrightarrow> sum_list xs = 0"
  by (induction xs) simp_all

lemma finished_run:
  assumes "procs_inv ps0 ps t" and "busy_inv ps tline" and "span_inv ps t tline"
    and "\<forall>i<length ps. remaining_time (ps ! i) = 0"
  shows "busy tline = sum_list (map burst_time ps0)"
    and "\<forall>p\<in>set (map metrics ps). metrics_ok p"
    and "ordered_from 0 tline"
    and "ps0 \<noteq> [] \<longrightarrow> end_of 0 tline = makespan (map metrics ps)"
proof -
  from assms(1) have v: "valid_input ps0" and sp: "map spec ps = map spec ps0"
    and ok: "\<forall>p\<in>set ps. proc_ok t p" by (simp_all add: procs_inv_def)
  from assms(4) have "\<forall>x\<in>set (map remaining_time ps). x = 0"
    by (auto simp: in_set_conv_nth)
  then have "sum_list (map remaining_time ps) = 0"
    by (rule sum_list_zero_int)
  with assms(2) have "busy tline = sum_list (map burst_time ps)" by (simp add: busy_inv_def)
  also have "\<dots> = sum_list (map burst_time ps0)" using sp by (rule sum_burst_spec)
  finally show "busy tline = sum_list (map burst_time ps0)" .
  show "\<forall>p\<in>set (map metrics ps). metrics_ok p"
  proof
    fix q assume "q \<in> set (map metrics ps)"
    then obtain p where p: "p \<in> set ps" and q: "q = metrics p" by auto
    from p assms(4) have "remaining_time p = 0" by (auto simp: in_set_conv_nth)
    moreover from p valid_inputD(2) [OF v sp] have "0 < burst_time p" by blast
    moreover from p ok have "proc_ok t p" by blast
    ultimately have "dispatched_ok p" using proc_ok_final by blast
    then show "metrics_ok q" unfolding q by (rule dispatched_metrics)
  qed
  from assms(3) show "ordered_from 0 tline" by (simp add: span_inv_def)
  show "ps0 \<noteq> [] \<longrightarrow> end_of 0 tline = makespan (map metrics ps)"
  proof
    assume "ps0 \<noteq> []"
    with sp have ne: "ps \<noteq> []" by auto
    from assms(3,4) have "\<forall>i<length ps. completion_time (ps ! i) \<le> end_of 0 tline"
      by (simp add: span_inv_def)
    moreover from assms(3,4) ne have "\<exists>i<length ps. completion_time (ps ! i) = end_of 0 tline"
      by (simp add: span_inv_def)
    ultimately have "makespan ps = end_of 0 tline" by (rule makespan_eqI)
    then show "end_of 0 tline = makespan (map metrics ps)" by simp
  qed
qed


lemma stcf_schedule_valid:
  assumes "valid_input (original_processes sim)"
  shows "\<exists>r sim'. stcf_schedule sim = Some (r, sim')
           \<and> busy (timeline sim') = sum_list (map burst_time (original_processes sim))
           \<and> (\<forall>p\<in>set (processes sim'). metrics_ok p)
           \<and> ordered_from 0 (timeline sim')
           \<and> distinct_adj (map entry_label (timeline sim'))
           \<and> (original_processes sim \<noteq> [] \<longrightarrow> end_of 0 (timeline sim') = makespan (processes sim'))"
proof -
  let ?s1 = "reset_processes sim"
  let ?init = "\<lparr>st_processes = processes ?s1, st_time = 0, st_completed = [],
                 st_timeline = timeline ?s1\<rparr>"
  from stcf_loop_total [OF stcf_inv_initial [OF assms]] obtain st where
    run: "stcf_loop ?init = Some st" and inv: "stcf_inv (original_processes sim) st"
    and fin: "\<not> length (st_completed st) < length (st_processes st)" by blast
  let ?s3 = "calculate_metrics (?s1\<lparr>processes := st_processes st, timeline := st_timeline st\<rparr>)"
  from run have sch: "stcf_schedule sim = Some (print_results ?s3, ?s3)"
    by (simp add: stcf_schedule_def Let_def)
  have pr: "processes ?s3 = map metrics (st_processes st)" and tl: "timeline ?s3 = st_timeline st"
    by (simp_all add: calculate_metrics_def)
  from inv have p: "procs_inv (original_processes sim) (st_processes st) (st_time st)"
    and c: "completed_inv (st_processes st) (st_completed st)"
    and b: "busy_inv (st_processes st) (st_timeline st)"
    and sp: "span_inv (st_processes st) (st_time st) (st_timeline st)"
    and m: "merge_inv (st_processes st) (st_time st) (st_timeline st)"
    by (simp_all add: stcf_inv_def)
  from c fin have zero: "\<forall>i<length (st_processes st). remaining_time (st_processes st ! i) = 0"
    by (rule completed_inv_done)
  note f = finished_run [OF p b sp zero]
  from m have "distinct_adj (map entry_label (st_timeline st))" by (simp add: merge_inv_def)
  with f have "busy (timeline ?s3) = sum_list (map burst_time (original_processes sim))
           \<and> (\<forall>p\<in>set (processes ?s3). metrics_ok p)
           \<and> ordered_from 0 (timeline ?s3)
           \<and> distinct_adj (map entry_label (timeline ?s3))
           \<and> (original_processes sim \<noteq> [] \<longrightarrow> end_of 0 (timeline ?s3) = makespan (processes ?s3))"
    unfolding pr tl by blast
  with sch show ?thesis by blast
qed

subsection \<open>Round Robin: the admission scans\<close>

lemma rr_admit_fold:
  fixes ps :: "process list" and t :: int and cur :: "nat option"
  defines "step \<equiv> (\<lambda>i (queue, in_queue).
             if arrival_time (ps ! i) \<le> t \<and> pid (ps ! i) \<notin> in_queue
                \<and> remaining_time (ps ! i) > 0 \<and> cur \<noteq> Some i
             then (queue @ [i], insert (pid (ps ! i)) in_queue)
             else (queue, in_queue))"
    and "C \<equiv> (\<lambda>inq i. arrival_time (ps ! i) \<le> t \<and> pid (ps ! i) \<notin> inq
                 \<and> 0 < remaining_time (ps ! i) \<and> cur \<noteq> Some i)"
  assumes "distinct (map (\<lambda>i. pid (ps ! i)) js)"
  shows "fold step js (q, inq)
         = (q @ filter (C inq) js, inq \<union> (\<lambda>i. pid (ps ! i)) ` set (filter (C inq) js))"
  using assms(3)
proof (induction js arbitrary: q inq)
  case Nil
  show ?case by simp
next
  case (Cons j js)
  from Cons.prems have d: "distinct (map (\<lambda>i. pid (ps ! i)) js)"
    and nj': "pid (ps ! j) \<notin> (\<lambda>i. pid (ps ! i)) ` set js" by simp_all
  have nj: "pid (ps ! i) \<noteq> pid (ps ! j)" if "i \<in> set js" for i
  proof -
    from that have "pid (ps ! i) \<in> (\<lambda>i. pid (ps ! i)) ` set js" by (rule imageI)
    with nj' show ?thesis by metis
  qed
  show ?case
  proof (cases "C inq j")
    case True
    then have s1: "step j (q, inq) = (q @ [j], insert (pid (ps ! j)) inq)"
      by (simp add: step_def C_def)
    have "C (insert (pid (ps ! j)) inq) i = C inq i" if "i \<in> set js" for i
      using nj [OF that] by (simp add: C_def)
    then have f: "filter (C (insert (pid (ps ! j)) inq)) js = filter (C inq) js"
      by (intro filter_cong [OF refl]) simp
    have "fold step (j # js) (q, inq) = fold step js (step j (q, inq))" by simp
    also have "\<dots> = ((q @ [j]) @ filter (C inq) js,
        insert (pid (ps ! j)) inq \<union> (\<lambda>i. pid (ps ! i)) ` set (filter (C inq) js))"
      unfolding s1 Cons.IH [OF d] f ..
    finally show ?thesis using True by simp
  next
    case False
    then have s1: "step j (q, inq) = (q, inq)"
      by (simp add: step_def C_def)
    have "fold step (j # js) (q, inq) = fold step js (step j (q, inq))" by simp
    also have "\<dots> = (q @ filter (C inq) js, inq \<union> (\<lambda>i. pid (ps ! i)) ` set (filter (C inq) js))"
      unfolding s1 Cons.IH [OF d] ..
    finally show ?thesis using False by simp
  qed
qed

lemma rr_admit_eq:
  assumes "distinct (map pid ps)"
  shows "rr_admit ps t cur (q, inq)
         = (q @ rr_eligible ps t cur inq, inq \<union> (\<lambda>i. pid (ps ! i)) ` set (rr_eligible ps t cur inq))"
proof -
  have "map (\<lambda>i. pid (ps ! i)) [0..<length ps] = map pid ps"
    by (rule nth_equalityI) simp_all
  with assms have "distinct (map (\<lambda>i. pid (ps ! i)) [0..<length ps])" by simp
  then show ?thesis
    unfolding rr_admit_def rr_eligible_def by (rule rr_admit_fold)
qed

lemma rr_eligible_iff:
  "i \<in> set (rr_eligible ps t cur inq) \<longleftrightarrow>
     i < length ps \<and> arrival_time (ps ! i) \<le> t \<and> pid (ps ! i) \<notin> inq
     \<and> 0 < remaining_time (ps ! i) \<and> cur \<noteq> Some i"
  by (auto simp: rr_eligible_def)

lemma rr_eligible_distinct: "distinct (rr_eligible ps t cur inq)"
  by (simp add: rr_eligible_def)

lemma rr_eligible_cong:
  assumes "length ps' = length ps"
    and "\<forall>i<length ps. arrival_time (ps' ! i) = arrival_time (ps ! i) \<and> pid (ps' ! i) = pid (ps ! i)
          \<and> remaining_time (ps' ! i) = remaining_time (ps ! i)"
  shows "rr_eligible ps' t cur inq = rr_eligible ps t cur inq"
  unfolding rr_eligible_def assms(1)
  by (rule filter_cong [OF refl]) (use assms(2) in auto)

lemma rr_initial_fold:
  "fold (\<lambda>i (queue, in_queue).
             if arrival_time (ps ! i) \<le> t
             then (queue @ [i], insert (pid (ps ! i)) in_queue)
             else (queue, in_queue)) js (q, inq)
   = (q @ filter (\<lambda>i. arrival_time (ps ! i) \<le> t) js,
      inq \<union> (\<lambda>i. pid (ps ! i)) ` set (filter (\<lambda>i. arrival_time (ps ! i) \<le> t) js))"
  by (induction js arbitrary: q inq) auto

lemma rr_initial_eq:
  "rr_initial ps t
   = (filter (\<lambda>i. arrival_time (ps ! i) \<le> t) [0..<length ps],
      (\<lambda>i. pid (ps ! i)) ` set (filter (\<lambda>i. arrival_time (ps ! i) \<le> t) [0..<length ps]))"
  unfolding rr_initial_def rr_initial_fold by simp


subsection \<open>Round Robin: the queue\<close>

lemma queue_inv_mono: "queue_inv ps t q inq \<Longrightarrow> t \<le> t' \<Longrightarrow> queue_inv ps t' q inq"
  by (fastforce simp: queue_inv_def)

lemma queue_inv_admit:
  assumes "queue_inv ps t q inq"
  shows "queue_inv ps t (q @ rr_eligible ps t cur inq)
           (inq \<union> (\<lambda>i. pid (ps ! i)) ` set (rr_eligible ps t cur inq))"
proof -
  from assms have d: "distinct q"
    and e: "\<forall>i\<in>set q. i < length ps \<and> arrival_time (ps ! i) \<le> t \<and> 0 < remaining_time (ps ! i)"
    and i: "inq = (\<lambda>i. pid (ps ! i)) ` set q" by (simp_all add: queue_inv_def)
  have "set q \<inter> set (rr_eligible ps t cur inq) = {}"
  proof (rule ccontr)
    assume "set q \<inter> set (rr_eligible ps t cur inq) \<noteq> {}"
    then obtain j where j: "j \<in> set q" "j \<in> set (rr_eligible ps t cur inq)" by blast
    from j(2) have "pid (ps ! j) \<notin> inq" by (simp add: rr_eligible_iff)
    with j(1) i show False by blast
  qed
  with d have 1: "distinct (q @ rr_eligible ps t cur inq)"
    by (simp add: rr_eligible_distinct)
  have 2: "\<forall>i\<in>set (q @ rr_eligible ps t cur inq).
      i < length ps \<and> arrival_time (ps ! i) \<le> t \<and> 0 < remaining_time (ps ! i)"
    using e by (auto simp: rr_eligible_iff)
  have 3: "inq \<union> (\<lambda>i. pid (ps ! i)) ` set (rr_eligible ps t cur inq)
      = (\<lambda>i. pid (ps ! i)) ` set (q @ rr_eligible ps t cur inq)"
    unfolding i by auto
  from 1 2 3 show ?thesis unfolding queue_inv_def by blast
qed

lemma queue_inv_tl:
  assumes "queue_inv ps t q inq" and "distinct (map pid ps)" and "q \<noteq> []"
  shows "queue_inv ps t (tl q) (inq - {pid (ps ! hd q)})"
proof -
  from assms(3) obtain c r where q: "q = c # r" by (cases q) auto
  from assms(1) have d: "distinct q"
    and e: "\<forall>i\<in>set q. i < length ps \<and> arrival_time (ps ! i) \<le> t \<and> 0 < remaining_time (ps ! i)"
    and i: "inq = (\<lambda>i. pid (ps ! i)) ` set q" by (simp_all add: queue_inv_def)
  have "pid (ps ! c) \<notin> (\<lambda>i. pid (ps ! i)) ` set r"
  proof
    assume "pid (ps ! c) \<in> (\<lambda>i. pid (ps ! i)) ` set r"
    then obtain j where j: "j \<in> set r" "pid (ps ! c) = pid (ps ! j)" by blast
    from j(1) e q have "j < length ps" "c < length ps" by simp_all
    with assms(2) j(2) have "c = j" by (intro distinct_pid_index [of ps]) simp_all
    with j(1) d q show False by simp
  qed
  then have "inq - {pid (ps ! c)} = (\<lambda>i. pid (ps ! i)) ` set r"
    unfolding i q by auto
  with d e q show ?thesis by (simp add: queue_inv_def)
qed

lemma queue_inv_run_update:
  assumes "queue_inv ps t q inq" and "cur \<notin> set q"
  shows "queue_inv (run_update ps cur t0 e) t q inq"
proof -
  have r: "remaining_time (run_update ps cur t0 e ! i) = remaining_time (ps ! i)"
    if "i \<in> set q" "i < length ps" for i
    using that assms(2) by (auto simp: remaining_run_update)
  from assms(1) show ?thesis
    unfolding queue_inv_def by (auto simp: r)
qed

lemma queue_inv_snoc:
  assumes "queue_inv ps t q inq" and "cur \<notin> set q" and "cur < length ps"
    and "arrival_time (ps ! cur) \<le> t" and "0 < remaining_time (ps ! cur)"
  shows "queue_inv ps t (q @ [cur]) (insert (pid (ps ! cur)) inq)"
  using assms unfolding queue_inv_def by auto

lemma queue_inv_hd:
  assumes "queue_inv ps t q inq" and "q \<noteq> []"
  shows "hd q < length ps" and "arrival_time (ps ! hd q) \<le> t"
    and "0 < remaining_time (ps ! hd q)" and "pid (ps ! hd q) \<in> inq" and "hd q \<notin> set (tl q)"
proof -
  from assms(2) obtain c r where q: "q = c # r" by (cases q) auto
  with assms(1) show "hd q < length ps" "arrival_time (ps ! hd q) \<le> t"
    "0 < remaining_time (ps ! hd q)" "pid (ps ! hd q) \<in> inq" "hd q \<notin> set (tl q)"
    by (simp_all add: queue_inv_def)
qed

subsection \<open>Round Robin: one iteration\<close>

lemma nth_update_finish:
  "f (finish t x) = f x \<Longrightarrow> f (ps[k := finish t x] ! i) = f (ps[k := x] ! i)"
  by (cases "k < length ps"; cases "i = k") (simp_all add: list_update_beyond)

lemma rr_dispatch_eq:
  assumes "distinct (map pid (rr_processes s))"
  shows "rr_dispatch quantum s q1 i1 =
     \<lparr>rr_processes = run_update (rr_processes s) (hd q1) (rr_time s) (rr_slice quantum s q1),
      rr_time = rr_time s + rr_slice quantum s q1,
      rr_queue = tl q1 @ rr_arrivals quantum s q1 i1
         @ (if remaining_time (rr_processes s ! hd q1) - rr_slice quantum s q1 = 0 then []
            else [hd q1]),
      rr_completed = rr_completed s
         @ (if remaining_time (rr_processes s ! hd q1) - rr_slice quantum s q1 = 0 then [hd q1]
            else []),
      rr_in_queue =
         (if remaining_time (rr_processes s ! hd q1) - rr_slice quantum s q1 = 0
          then (i1 - {pid (rr_processes s ! hd q1)})
               \<union> (\<lambda>i. pid (rr_processes s ! i)) ` set (rr_arrivals quantum s q1 i1)
          else insert (pid (rr_processes s ! hd q1))
                 ((i1 - {pid (rr_processes s ! hd q1)})
                  \<union> (\<lambda>i. pid (rr_processes s ! i)) ` set (rr_arrivals quantum s q1 i1))),
      rr_timeline = rr_timeline s
         @ [(label (rr_processes s ! hd q1), rr_time s, rr_time s + rr_slice quantum s q1)]\<rparr>"
proof -
  let ?ps = "rr_processes s" and ?t = "rr_time s" and ?cur = "hd q1"
  let ?e = "rr_slice quantum s q1"
  let ?ps2 = "?ps[?cur := run_for ?t ?e (?ps ! ?cur)]"
  have pd: "pid (?ps2 ! i) = pid (?ps ! i)" for i
    by (rule nth_update_field) simp
  have "map pid ?ps2 = map pid ?ps"
    by (rule nth_equalityI) (simp_all add: pd del: nth_list_update_eq)
  with assms have d2: "distinct (map pid ?ps2)" by simp
  have "rr_eligible (run_update ?ps ?cur ?t ?e) (?t + ?e) (Some ?cur) (i1 - {pid (?ps ! ?cur)})
        = rr_eligible ?ps2 (?t + ?e) (Some ?cur) (i1 - {pid (?ps ! ?cur)})"
    unfolding run_update_def
    by (rule rr_eligible_cong) (simp_all add: nth_update_finish del: nth_list_update_eq)
  then have arr: "rr_eligible ?ps2 (?t + ?e) (Some ?cur) (i1 - {pid (?ps ! ?cur)})
      = rr_arrivals quantum s q1 i1"
    by (simp add: rr_arrivals_def)
  have adm: "rr_admit ?ps2 (?t + ?e) (Some ?cur) (tl q1, i1 - {pid (?ps ! ?cur)})
      = (tl q1 @ rr_arrivals quantum s q1 i1,
         (i1 - {pid (?ps ! ?cur)}) \<union> (\<lambda>i. pid (?ps ! i)) ` set (rr_arrivals quantum s q1 i1))"
    unfolding rr_admit_eq [OF d2] arr pd ..
  show ?thesis
    unfolding rr_dispatch_def Let_def rr_slice_def [symmetric] adm
    by (simp add: run_update_def)
qed


lemma rr_step_cases:
  assumes "distinct (map pid (rr_processes s))"
  shows "rr_step quantum s =
     (let q1 = rr_queue s @ rr_eligible (rr_processes s) (rr_time s) None (rr_in_queue s);
          i1 = rr_in_queue s \<union> (\<lambda>i. pid (rr_processes s ! i))
                  ` set (rr_eligible (rr_processes s) (rr_time s) None (rr_in_queue s))
      in if q1 = [] then Inr (s\<lparr>rr_time := rr_time s + 1, rr_queue := q1, rr_in_queue := i1\<rparr>)
         else if pid (rr_processes s ! hd q1) \<notin> i1 then Inl KeyError
         else Inr (rr_dispatch quantum s q1 i1))"
  unfolding rr_step_eq rr_admit_eq [OF assms] Let_def fst_conv snd_conv ..

lemma rr_inv_distinct: "rr_inv ps0 s \<Longrightarrow> distinct (map pid (rr_processes s))"
  unfolding rr_inv_def procs_inv_def using valid_inputD(1) by blast

lemma rr_inv_idle:
  assumes "rr_inv ps0 s" and "rr_queue s = []"
  shows "rr_inv ps0 (s\<lparr>rr_time := rr_time s + 1, rr_queue := [], rr_in_queue := rr_in_queue s\<rparr>)"
proof -
  from assms(1) have p: "procs_inv ps0 (rr_processes s) (rr_time s)"
    and c: "completed_inv (rr_processes s) (rr_completed s)"
    and b: "busy_inv (rr_processes s) (rr_timeline s)"
    and sp: "span_inv (rr_processes s) (rr_time s) (rr_timeline s)"
    and q: "queue_inv (rr_processes s) (rr_time s) (rr_queue s) (rr_in_queue s)"
    by (simp_all add: rr_inv_def)
  from p have "procs_inv ps0 (rr_processes s) (rr_time s + 1)" by (rule procs_inv_idle) simp
  moreover from sp have "span_inv (rr_processes s) (rr_time s + 1) (rr_timeline s)"
    by (rule span_inv_idle) simp
  moreover from q assms(2) have "queue_inv (rr_processes s) (rr_time s + 1) [] (rr_in_queue s)"
    by (simp add: queue_inv_def)
  ultimately show ?thesis using c b by (simp add: rr_inv_def)
qed

lemma rr_inv_dispatch:
  assumes "rr_inv ps0 s" and "0 < quantum"
    and q1: "q1 = rr_queue s @ rr_eligible (rr_processes s) (rr_time s) None (rr_in_queue s)"
    and i1: "i1 = rr_in_queue s \<union> (\<lambda>i. pid (rr_processes s ! i))
                  ` set (rr_eligible (rr_processes s) (rr_time s) None (rr_in_queue s))"
    and ne: "q1 \<noteq> []"
  shows "rr_inv ps0 (rr_dispatch quantum s q1 i1)"
    and "pid (rr_processes s ! hd q1) \<in> i1"
    and "run_measure (rr_processes (rr_dispatch quantum s q1 i1)) (rr_time (rr_dispatch quantum s q1 i1))
         < run_measure (rr_processes s) (rr_time s)"
proof -
  let ?ps = "rr_processes s" and ?t = "rr_time s" and ?cur = "hd q1"
  let ?e = "rr_slice quantum s q1"
  let ?ps' = "run_update ?ps ?cur ?t ?e"
  let ?new = "rr_arrivals quantum s q1 i1"
  let ?r = "remaining_time (?ps ! ?cur) - ?e"
  from assms(1) have p: "procs_inv ps0 ?ps ?t"
    and c: "completed_inv ?ps (rr_completed s)"
    and b: "busy_inv ?ps (rr_timeline s)"
    and sp: "span_inv ?ps ?t (rr_timeline s)"
    and q: "queue_inv ?ps ?t (rr_queue s) (rr_in_queue s)"
    by (simp_all add: rr_inv_def)
  from assms(1) have d: "distinct (map pid ?ps)" by (rule rr_inv_distinct)
  from q have qi1: "queue_inv ?ps ?t q1 i1" unfolding q1 i1 by (rule queue_inv_admit)
  note h = queue_inv_hd [OF qi1 ne]
  show "pid (?ps ! ?cur) \<in> i1" by (rule h(4))
  from h(3) assms(2) have e0: "0 < ?e" and e1: "?e \<le> remaining_time (?ps ! ?cur)"
    by (simp_all add: rr_slice_def)
  have 1: "procs_inv ps0 ?ps' (?t + ?e)"
    using p h(1) h(2) e0 e1 by (rule procs_inv_run)
  have 2: "completed_inv ?ps' (rr_completed s @ (if ?r = 0 then [?cur] else []))"
    using c h(1) h(3) by (rule completed_inv_run)
  have 3: "busy_inv ?ps' (rr_timeline s @ [(label (?ps ! ?cur), ?t, ?t + ?e)])"
    using b by (simp add: busy_inv_def sum_remaining_run [OF h(1)])
  from sp have "ordered_from 0 (rr_timeline s)" "end_of 0 (rr_timeline s) \<le> ?t"
    by (simp_all add: span_inv_def)
  with e0 have "ordered_from 0 (rr_timeline s @ [(label (?ps ! ?cur), ?t, ?t + ?e)])"
    by (simp add: ordered_snoc)
  then have 4: "span_inv ?ps' (?t + ?e) (rr_timeline s @ [(label (?ps ! ?cur), ?t, ?t + ?e)])"
    by (intro span_inv_run [OF sp h(1) e0]) simp_all
  have "queue_inv ?ps ?t (tl q1) (i1 - {pid (?ps ! ?cur)})"
    using qi1 d ne by (rule queue_inv_tl)
  then have "queue_inv ?ps' ?t (tl q1) (i1 - {pid (?ps ! ?cur)})"
    using h(5) by (rule queue_inv_run_update)
  then have "queue_inv ?ps' (?t + ?e) (tl q1) (i1 - {pid (?ps ! ?cur)})"
    by (rule queue_inv_mono) (use e0 in simp)
  then have "queue_inv ?ps' (?t + ?e)
      (tl q1 @ rr_eligible ?ps' (?t + ?e) (Some ?cur) (i1 - {pid (?ps ! ?cur)}))
      ((i1 - {pid (?ps ! ?cur)}) \<union> (\<lambda>i. pid (?ps' ! i))
          ` set (rr_eligible ?ps' (?t + ?e) (Some ?cur) (i1 - {pid (?ps ! ?cur)})))"
    by (rule queue_inv_admit)
  then have qa: "queue_inv ?ps' (?t + ?e) (tl q1 @ ?new)
      ((i1 - {pid (?ps ! ?cur)}) \<union> (\<lambda>i. pid (?ps ! i)) ` set ?new)"
    by (simp add: rr_arrivals_def)
  have 5: "queue_inv ?ps' (?t + ?e) (tl q1 @ ?new @ (if ?r = 0 then [] else [?cur]))
      (if ?r = 0 then (i1 - {pid (?ps ! ?cur)}) \<union> (\<lambda>i. pid (?ps ! i)) ` set ?new
       else insert (pid (?ps ! ?cur))
              ((i1 - {pid (?ps ! ?cur)}) \<union> (\<lambda>i. pid (?ps ! i)) ` set ?new))"
  proof (cases "?r = 0")
    case True
    with qa show ?thesis by simp
  next
    case False
    have "?cur \<notin> set ?new" by (simp add: rr_arrivals_def rr_eligible_iff)
    with h(5) have n: "?cur \<notin> set (tl q1 @ ?new)" by simp
    from False e1 have "0 < remaining_time (?ps' ! ?cur)"
      using h(1) by (simp add: remaining_run_update)
    moreover from h(2) e0 have "arrival_time (?ps' ! ?cur) \<le> ?t + ?e" by simp
    moreover from h(1) have "?cur < length ?ps'" by simp
    ultimately have "queue_inv ?ps' (?t + ?e) ((tl q1 @ ?new) @ [?cur])
        (insert (pid (?ps' ! ?cur))
           ((i1 - {pid (?ps ! ?cur)}) \<union> (\<lambda>i. pid (?ps ! i)) ` set ?new))"
      using qa n by (intro queue_inv_snoc [of ?ps' "?t + ?e" "tl q1 @ ?new"]) simp_all
    with False show ?thesis by simp
  qed
  from 1 2 3 4 5 show "rr_inv ps0 (rr_dispatch quantum s q1 i1)"
    unfolding rr_dispatch_eq [OF d] rr_inv_def by simp
  from p h(1) e0 e1 have "run_measure ?ps' (?t + ?e) < run_measure ?ps ?t"
    by (rule run_measure_run)
  then show "run_measure (rr_processes (rr_dispatch quantum s q1 i1))
         (rr_time (rr_dispatch quantum s q1 i1)) < run_measure ?ps ?t"
    unfolding rr_dispatch_eq [OF d] by simp
qed

subsection \<open>Round Robin terminates on valid input\<close>

lemma rr_step_total:
  assumes "rr_inv ps0 s" and "0 < quantum"
    and "rr_queue s \<noteq> [] \<or> length (rr_completed s) < length (rr_processes s)"
  shows "\<exists>s'. rr_step quantum s = Inr s' \<and> rr_inv ps0 s'
           \<and> run_measure (rr_processes s') (rr_time s') < run_measure (rr_processes s) (rr_time s)"
proof -
  let ?ps = "rr_processes s" and ?t = "rr_time s"
  let ?el = "rr_eligible ?ps ?t None (rr_in_queue s)"
  let ?q1 = "rr_queue s @ ?el"
  let ?i1 = "rr_in_queue s \<union> (\<lambda>i. pid (?ps ! i)) ` set ?el"
  from assms(1) have d: "distinct (map pid ?ps)" by (rule rr_inv_distinct)
  show ?thesis
  proof (cases "?q1 = []")
    case True
    then have qe: "rr_queue s = []" and el: "?el = []" by simp_all
    from True el have st: "rr_step quantum s
        = Inr (s\<lparr>rr_time := ?t + 1, rr_queue := [], rr_in_queue := rr_in_queue s\<rparr>)"
      unfolding rr_step_cases [OF d] Let_def by simp
    from assms(1) qe have inv: "rr_inv ps0 (s\<lparr>rr_time := ?t + 1, rr_queue := [],
        rr_in_queue := rr_in_queue s\<rparr>)" by (rule rr_inv_idle)
    from assms(1) have p: "procs_inv ps0 ?ps ?t" and c: "completed_inv ?ps (rr_completed s)"
      and q: "queue_inv ?ps ?t (rr_queue s) (rr_in_queue s)" by (simp_all add: rr_inv_def)
    from q qe have iq: "rr_in_queue s = {}" by (simp add: queue_inv_def)
    from assms(3) qe have "length (rr_completed s) < length ?ps" by simp
    from completed_inv_not_done [OF c this] obtain i where
      i: "i < length ?ps" "remaining_time (?ps ! i) \<noteq> 0" by blast
    with procs_inv_remaining [OF p i(1)] have "0 < remaining_time (?ps ! i)" by simp
    moreover from el have "i \<notin> set ?el" by simp
    ultimately have "?t < arrival_time (?ps ! i)"
      using i(1) iq by (simp add: rr_eligible_iff)
    with i(1) have "run_measure ?ps (?t + 1) < run_measure ?ps ?t" by (rule run_measure_idle)
    with st inv show ?thesis by simp
  next
    case False
    note di = rr_inv_dispatch [OF assms(1,2) refl refl False]
    from False have a: "(if ?q1 = [] then X else Y) = Y" for X Y :: "error + rr_state"
      by (rule if_not_P)
    from di(2) have "\<not> pid (?ps ! hd ?q1) \<notin> ?i1" by blast
    then have b: "(if pid (?ps ! hd ?q1) \<notin> ?i1 then X else Y) = Y" for X Y :: "error + rr_state"
      by (rule if_not_P)
    have "rr_step quantum s = Inr (rr_dispatch quantum s ?q1 ?i1)"
      unfolding rr_step_cases [OF d] Let_def a b ..
    with di(1,3) show ?thesis by blast
  qed
qed

lemma rr_loop_total:
  assumes "rr_inv ps0 s" and "0 < quantum"
  shows "\<exists>s'. rr_loop quantum s = Some (None, s') \<and> rr_inv ps0 s' \<and> rr_queue s' = []
           \<and> \<not> length (rr_completed s') < length (rr_processes s')"
  using assms(1)
proof (induction "run_measure (rr_processes s) (rr_time s)" arbitrary: s rule: less_induct)
  case less
  show ?case
  proof (cases "rr_queue s \<noteq> [] \<or> length (rr_completed s) < length (rr_processes s)")
    case True
    from rr_step_total [OF less.prems assms(2) True] obtain s1 where
      st: "rr_step quantum s = Inr s1" and inv: "rr_inv ps0 s1"
      and m: "run_measure (rr_processes s1) (rr_time s1) < run_measure (rr_processes s) (rr_time s)"
      by blast
    from less.hyps [OF m inv] obtain s' where
      "rr_loop quantum s1 = Some (None, s')" "rr_inv ps0 s'" "rr_queue s' = []"
      "\<not> length (rr_completed s') < length (rr_processes s')" by blast
    with True st show ?thesis by (subst rr_loop.simps) simp
  next
    case False
    with less.prems show ?thesis by (subst rr_loop.simps) simp
  qed
qed

lemma rr_inv_initial:
  assumes "valid_input (original_processes sim)"
  shows "rr_inv (original_processes sim)
           \<lparr>rr_processes = processes (reset_processes sim), rr_time = 0,
            rr_queue = fst (rr_initial (processes (reset_processes sim)) 0), rr_completed = [],
            rr_in_queue = snd (rr_initial (processes (reset_processes sim)) 0),
            rr_timeline = timeline (reset_processes sim)\<rparr>"
proof -
  let ?ps = "processes (reset_processes sim)"
  have "queue_inv ?ps 0 (fst (rr_initial ?ps 0)) (snd (rr_initial ?ps 0))"
    unfolding rr_initial_eq queue_inv_def fst_conv snd_conv
    using reset_remaining_pos [OF assms] by simp
  with procs_inv_reset [OF assms, of 0] completed_inv_reset [OF assms] busy_inv_reset [of sim]
    span_inv_reset [OF assms]
  show ?thesis by (simp add: rr_inv_def)
qed

lemma rr_schedule_valid:
  assumes "valid_input (original_processes sim)" and "0 < quantum"
  shows "\<exists>r sim'. rr_schedule sim quantum = Some (r, sim')
           \<and> busy (timeline sim') = sum_list (map burst_time (original_processes sim))
           \<and> (\<forall>p\<in>set (processes sim'). metrics_ok p)
           \<and> ordered_from 0 (timeline sim')
           \<and> (original_processes sim \<noteq> [] \<longrightarrow> end_of 0 (timeline sim') = makespan (processes sim'))"
proof -
  let ?s1 = "reset_processes sim"
  let ?init = "\<lparr>rr_processes = processes ?s1, rr_time = 0,
            rr_queue = fst (rr_initial (processes ?s1) 0), rr_completed = [],
            rr_in_queue = snd (rr_initial (processes ?s1) 0),
            rr_timeline = timeline ?s1\<rparr>"
  from rr_loop_total [OF rr_inv_initial [OF assms(1)] assms(2)] obtain st where
    run: "rr_loop quantum ?init = Some (None, st)" and inv: "rr_inv (original_processes sim) st"
    and fin: "\<not> length (rr_completed st) < length (rr_processes st)" by blast
  let ?s3 = "calculate_metrics (?s1\<lparr>processes := rr_processes st, timeline := rr_timeline st\<rparr>)"
  from run have sch: "rr_schedule sim quantum = Some (print_results ?s3, ?s3)"
    by (simp add: rr_schedule_def Let_def split_beta)
  have pr: "processes ?s3 = map metrics (rr_processes st)" and tl: "timeline ?s3 = rr_timeline st"
    by (simp_all add: calculate_metrics_def)
  from inv have p: "procs_inv (original_processes sim) (rr_processes st) (rr_time st)"
    and c: "completed_inv (rr_processes st) (rr_completed st)"
    and b: "busy_inv (rr_processes st) (rr_timeline st)"
    and sp: "span_inv (rr_processes st) (rr_time st) (rr_timeline st)"
    by (simp_all add: rr_inv_def)
  from c fin have zero: "\<forall>i<length (rr_processes st). remaining_time (rr_processes st ! i) = 0"
    by (rule completed_inv_done)
  note f = finished_run [OF p b sp zero]
  then have "busy (timeline ?s3) = sum_list (map burst_time (original_processes sim))
           \<and> (\<forall>p\<in>set (processes ?s3). metrics_ok p)
           \<and> ordered_from 0 (timeline ?s3)
           \<and> (original_processes sim \<noteq> [] \<longrightarrow> end_of 0 (timeline ?s3) = makespan (processes ?s3))"
    unfolding pr tl by blast
  with sch show ?thesis by blast
qed

subsection \<open>Round Robin: who is admitted during a slice\<close>

lemma pid_mem_iff:
  assumes "distinct (map pid ps)" and "\<forall>j\<in>set q. j < length ps" and "i < length ps"
  shows "pid (ps ! i) \<in> (\<lambda>j. pid (ps ! j)) ` set q \<longleftrightarrow> i \<in> set q"
proof
  assume "pid (ps ! i) \<in> (\<lambda>j. pid (ps ! j)) ` set q"
  then obtain j where j: "j \<in> set q" "pid (ps ! i) = pid (ps ! j)" by blast
  with assms(2) have "j < length ps" by blast
  with assms(1,3) j(2) have "i = j" by (intro distinct_pid_index [of ps]) simp_all
  with j(1) show "i \<in> set q" by simp
next
  assume "i \<in> set q"
  then show "pid (ps ! i) \<in> (\<lambda>j. pid (ps ! j)) ` set q" by (rule imageI)
qed

lemma procs_inv_not_arrived:
  assumes "procs_inv ps0 ps t" and "i < length ps" and "t < arrival_time (ps ! i)"
  shows "0 < remaining_time (ps ! i)"
proof -
  from assms(1) have v: "valid_input ps0" and sp: "map spec ps = map spec ps0"
    and ok: "\<forall>p\<in>set ps. proc_ok t p" by (simp_all add: procs_inv_def)
  from assms(2) have m: "ps ! i \<in> set ps" by simp
  with valid_inputD(2) [OF v sp] have b: "0 < burst_time (ps ! i)" by blast
  from ok m have "proc_ok t (ps ! i)" by blast
  with assms(3) b show ?thesis by (auto simp: proc_ok_def split: if_splits)
qed

lemma rr_arrivals_during:
  assumes "rr_inv ps0 s"
    and q1: "q1 = rr_queue s @ rr_eligible (rr_processes s) (rr_time s) None (rr_in_queue s)"
    and i1: "i1 = rr_in_queue s \<union> (\<lambda>i. pid (rr_processes s ! i))
                  ` set (rr_eligible (rr_processes s) (rr_time s) None (rr_in_queue s))"
    and ne: "q1 \<noteq> []"
  shows "rr_arrivals quantum s q1 i1
         = filter (\<lambda>i. i \<noteq> hd q1 \<and> rr_time s < arrival_time (rr_processes s ! i)
                    \<and> arrival_time (rr_processes s ! i) \<le> rr_time s + rr_slice quantum s q1)
             [0..<length (rr_processes s)]"
proof -
  let ?ps = "rr_processes s" and ?t = "rr_time s" and ?cur = "hd q1"
  let ?e = "rr_slice quantum s q1"
  from assms(1) have p: "procs_inv ps0 ?ps ?t"
    and q: "queue_inv ?ps ?t (rr_queue s) (rr_in_queue s)" by (simp_all add: rr_inv_def)
  from assms(1) have d: "distinct (map pid ?ps)" by (rule rr_inv_distinct)
  from q have qi1: "queue_inv ?ps ?t q1 i1" unfolding q1 i1 by (rule queue_inv_admit)
  note h = queue_inv_hd [OF qi1 ne]
  from qi1 have in1: "\<forall>j\<in>set q1. j < length ?ps \<and> arrival_time (?ps ! j) \<le> ?t"
    and i1eq: "i1 = (\<lambda>j. pid (?ps ! j)) ` set q1" by (simp_all add: queue_inv_def)
  from q have inq: "\<forall>j\<in>set (rr_queue s). j < length ?ps"
    and iqeq: "rr_in_queue s = (\<lambda>j. pid (?ps ! j)) ` set (rr_queue s)"
    by (simp_all add: queue_inv_def)
  have A: "i \<in> set q1" if "i < length ?ps" "arrival_time (?ps ! i) \<le> ?t"
    "0 < remaining_time (?ps ! i)" for i
  proof (cases "i \<in> set (rr_queue s)")
    case True
    then show ?thesis by (simp add: q1)
  next
    case False
    with pid_mem_iff [OF d _ that(1), of "rr_queue s"] inq iqeq
    have "pid (?ps ! i) \<notin> rr_in_queue s" by blast
    with that have "i \<in> set (rr_eligible ?ps ?t None (rr_in_queue s))"
      by (simp add: rr_eligible_iff)
    then show ?thesis by (simp add: q1)
  qed
  have eq: "(arrival_time (?ps ! i) \<le> ?t + ?e \<and> pid (?ps ! i) \<notin> i1 - {pid (?ps ! ?cur)}
        \<and> 0 < remaining_time (run_update ?ps ?cur ?t ?e ! i) \<and> Some ?cur \<noteq> Some i)
      \<longleftrightarrow> (i \<noteq> ?cur \<and> ?t < arrival_time (?ps ! i) \<and> arrival_time (?ps ! i) \<le> ?t + ?e)"
    if i: "i < length ?ps" for i
  proof (cases "i = ?cur")
    case True
    then show ?thesis by simp
  next
    case False
    with d i h(1) have "pid (?ps ! i) \<noteq> pid (?ps ! ?cur)"
      using distinct_pid_index [of ?ps i ?cur] by blast
    then have a: "pid (?ps ! i) \<notin> i1 - {pid (?ps ! ?cur)} \<longleftrightarrow> pid (?ps ! i) \<notin> i1" by simp
    from in1 have "\<forall>j\<in>set q1. j < length ?ps" by blast
    from pid_mem_iff [OF d this i] have b: "pid (?ps ! i) \<notin> i1 \<longleftrightarrow> i \<notin> set q1"
      unfolding i1eq by simp
    from False i have r: "remaining_time (run_update ?ps ?cur ?t ?e ! i) = remaining_time (?ps ! i)"
      by (simp add: remaining_run_update)
    show ?thesis
    proof (cases "?t < arrival_time (?ps ! i)")
      case True
      with in1 have "i \<notin> set q1" by fastforce
      moreover from p i True have "0 < remaining_time (?ps ! i)" by (rule procs_inv_not_arrived)
      ultimately show ?thesis using False True a b r by simp
    next
      case late: False
      then have "arrival_time (?ps ! i) \<le> ?t" by simp
      with A [OF i] have "0 < remaining_time (?ps ! i) \<longrightarrow> i \<in> set q1" by blast
      with late a b r show ?thesis by auto
    qed
  qed
  show ?thesis
    unfolding rr_arrivals_def rr_eligible_def length_run_update field_run_update
    by (rule filter_cong [OF refl]) (use eq in simp)
qed

subsection \<open>The first iteration on an arbitrary process list\<close>

lemma stcf_schedule_entry:
  "stcf_schedule (SchedulerSimulator ps) = stcf_return ps (stcf_loop (stcf_entry ps))"
  by (simp add: stcf_schedule_def stcf_return_def stcf_entry_def reset_processes_def
        SchedulerSimulator_def Let_def split: option.splits)

lemma stcf_step_time: "st_time (stcf_step s) = st_time s + 1"
  by (simp add: stcf_step_def Let_def)

lemma rr_schedule_entry:
  "rr_schedule (SchedulerSimulator ps) quantum = rr_return ps (rr_loop quantum (rr_entry ps))"
  by (simp add: rr_schedule_def rr_return_def rr_entry_def reset_processes_def
        SchedulerSimulator_def Let_def split_beta split: option.splits prod.splits)

lemma rr_admit_queued:
  assumes "\<forall>i\<in>set q. pid (ps ! i) \<in> inq"
  shows "\<forall>i\<in>set (fst (fold (\<lambda>i (queue, in_queue).
             if arrival_time (ps ! i) \<le> t \<and> pid (ps ! i) \<notin> in_queue
                \<and> remaining_time (ps ! i) > 0 \<and> cur \<noteq> Some i
             then (queue @ [i], insert (pid (ps ! i)) in_queue)
             else (queue, in_queue)) js (q, inq))).
           pid (ps ! i) \<in> snd (fold (\<lambda>i (queue, in_queue).
             if arrival_time (ps ! i) \<le> t \<and> pid (ps ! i) \<notin> in_queue
                \<and> remaining_time (ps ! i) > 0 \<and> cur \<noteq> Some i
             then (queue @ [i], insert (pid (ps ! i)) in_queue)
             else (queue, in_queue)) js (q, inq))"
  using assms
proof (induction js arbitrary: q inq)
  case Nil
  then show ?case by simp
next
  case (Cons j js)
  show ?case
  proof (cases "arrival_time (ps ! j) \<le> t \<and> pid (ps ! j) \<notin> inq
                \<and> remaining_time (ps ! j) > 0 \<and> cur \<noteq> Some j")
    case True
    have "\<forall>i\<in>set (q @ [j]). pid (ps ! i) \<in> insert (pid (ps ! j)) inq"
      using Cons.prems by auto
    from Cons.IH [OF this] True show ?thesis by simp
  next
    case False
    from Cons.IH [OF Cons.prems] False show ?thesis by auto
  qed
qed

lemma rr_first_step:
  "\<exists>s1. rr_step quantum (rr_entry ps) = Inr s1"
proof -
  let ?s = "rr_entry ps"
  let ?adm = "rr_admit (rr_processes ?s) (rr_time ?s) None (rr_queue ?s, rr_in_queue ?s)"
  have "\<forall>i\<in>set (rr_queue ?s). pid (rr_processes ?s ! i) \<in> rr_in_queue ?s"
    unfolding rr_entry_def Let_def rr_initial_eq by auto
  then have "\<forall>i\<in>set (fst ?adm). pid (rr_processes ?s ! i) \<in> snd ?adm"
    unfolding rr_admit_def by (rule rr_admit_queued)
  then have "fst ?adm \<noteq> [] \<Longrightarrow> pid (rr_processes ?s ! hd (fst ?adm)) \<in> snd ?adm"
    by simp
  then show ?thesis
    unfolding rr_step_eq Let_def by (cases "fst ?adm = []") simp_all
qed

subsection \<open>The selections of SJF and STCF\<close>

lemma sorted_wrt_remove1_nat:
  fixes xs :: "nat list"
  assumes "sorted_wrt (<) xs"
  shows "sorted_wrt (<) (remove1 k xs)"
  using assms unfolding strict_sorted_iff by (simp add: sorted_remove1)

lemma sjf_loop_prefix: "\<exists>rest. snd (sjf_loop ps t rem tline) = tline @ rest"
proof (induction ps t rem tline rule: sjf_induct)
  case (Nil ps t tline)
  show ?case by simp
next
  case (idle ps t rem tline)
  then show ?case by (auto simp: sjf_loop_idle)
next
  case (run ps t rem tline)
  then show ?case by (auto simp: sjf_loop_run)
qed

lemma sjf_shortest_least:
  assumes "sorted_wrt (<) rem" and "sjf_available ps t rem \<noteq> []"
    and "j \<in> set rem" and "arrival_time (ps ! j) \<le> t"
  shows "burst_time (ps ! sjf_shortest ps t rem) \<le> burst_time (ps ! j)"
    and "burst_time (ps ! j) = burst_time (ps ! sjf_shortest ps t rem) \<Longrightarrow> sjf_shortest ps t rem \<le> j"
proof -
  from assms(1) have s: "sorted_wrt (<) (sjf_available ps t rem)"
    unfolding sjf_available_def by (rule sorted_wrt_filter)
  from assms(3,4) have j: "j \<in> set (sjf_available ps t rem)"
    by (simp add: sjf_available_def)
  from py_min_least [OF assms(2) s j, of "\<lambda>i. burst_time (ps ! i)"]
  show "burst_time (ps ! sjf_shortest ps t rem) \<le> burst_time (ps ! j)"
    and "burst_time (ps ! j) = burst_time (ps ! sjf_shortest ps t rem) \<Longrightarrow> sjf_shortest ps t rem \<le> j"
    unfolding sjf_shortest_def by simp_all
qed

lemma stcf_current_least:
  assumes "j < length ps" and "arrival_time (ps ! j) \<le> t" and "0 < remaining_time (ps ! j)"
  shows "remaining_time (ps ! stcf_current ps t) \<le> remaining_time (ps ! j)"
    and "remaining_time (ps ! j) = remaining_time (ps ! stcf_current ps t) \<Longrightarrow> stcf_current ps t \<le> j"
proof -
  from assms have j: "j \<in> set (stcf_available ps t)" by (simp only: stcf_available_iff)
  then have ne: "stcf_available ps t \<noteq> []" by auto
  from py_min_least [OF ne stcf_available_sorted j, of "\<lambda>i. remaining_time (ps ! i)"]
  show "remaining_time (ps ! stcf_current ps t) \<le> remaining_time (ps ! j)"
    and "remaining_time (ps ! j) = remaining_time (ps ! stcf_current ps t) \<Longrightarrow> stcf_current ps t \<le> j"
    unfolding stcf_current_def by simp_all
qed

lemma stcf_dispatch_effect:
  assumes "stcf_available (st_processes s) (st_time s) \<noteq> []"
  defines "cur \<equiv> stcf_current (st_processes s) (st_time s)"
  shows "remaining_time (st_processes (stcf_step s) ! cur) = remaining_time (st_processes s ! cur) - 1"
    and "\<forall>j. j \<noteq> cur \<longrightarrow> st_processes (stcf_step s) ! j = st_processes s ! j"
    and "st_timeline (stcf_step s) \<noteq> []"
    and "entry_label (last (st_timeline (stcf_step s))) = label (st_processes s ! cur)"
    and "entry_end (last (st_timeline (stcf_step s))) = st_time s + 1"
proof -
  from assms(1) have c: "cur < length (st_processes s)"
    unfolding cur_def by (rule stcf_current_in)
  from assms(1) have e: "stcf_step s = stcf_dispatch s" by (simp add: stcf_step_eq)
  show "remaining_time (st_processes (stcf_step s) ! cur) = remaining_time (st_processes s ! cur) - 1"
    using c unfolding e stcf_dispatch_def Let_def cur_def [symmetric]
    by (simp add: finish_def run_for_def)
  show "\<forall>j. j \<noteq> cur \<longrightarrow> st_processes (stcf_step s) ! j = st_processes s ! j"
    unfolding e stcf_dispatch_def Let_def cur_def [symmetric] by simp
  show "st_timeline (stcf_step s) \<noteq> []"
    unfolding e stcf_dispatch_def Let_def by simp
  show "entry_label (last (st_timeline (stcf_step s))) = label (st_processes s ! cur)"
    unfolding e stcf_dispatch_def Let_def cur_def [symmetric] by (simp add: last_merge_entry)
  show "entry_end (last (st_timeline (stcf_step s))) = st_time s + 1"
    unfolding e stcf_dispatch_def Let_def cur_def [symmetric] by (simp add: last_merge_entry)
qed

subsection \<open>The selections of a whole SJF run\<close>

lemma map_spec_nth:
  assumes "map spec ps = map spec ps0" and "i < length ps0"
  shows "pid (ps ! i) = pid (ps0 ! i)" and "arrival_time (ps ! i) = arrival_time (ps0 ! i)"
    and "burst_time (ps ! i) = burst_time (ps0 ! i)" and "label (ps ! i) = label (ps0 ! i)"
proof -
  from assms(1) have l: "length ps = length ps0" by (rule map_eq_imp_length_eq)
  from assms(1) have "map spec ps ! i = map spec ps0 ! i" by simp
  with assms(2) l have s: "spec (ps ! i) = spec (ps0 ! i)" by simp
  then show "pid (ps ! i) = pid (ps0 ! i)" "arrival_time (ps ! i) = arrival_time (ps0 ! i)"
    "burst_time (ps ! i) = burst_time (ps0 ! i)"
    by (simp_all add: spec_def)
  then show "label (ps ! i) = label (ps0 ! i)" by (simp add: label_eq_iff)
qed

lemma sjf_choice_snoc:
  assumes "sjf_choice ps ex"
    and "k < length ps" and "l = label (ps ! k)" and "arrival_time (ps ! k) \<le> s"
    and "\<forall>j<length ps. label (ps ! j) \<notin> entry_label ` set ex \<and> arrival_time (ps ! j) \<le> s \<longrightarrow>
               burst_time (ps ! k) \<le> burst_time (ps ! j)
               \<and> (burst_time (ps ! j) = burst_time (ps ! k) \<longrightarrow> k \<le> j)"
  shows "sjf_choice ps (ex @ [(l, s, e)])"
  unfolding sjf_choice_def
proof (intro allI impI)
  fix m assume "m < length (ex @ [(l, s, e)])"
  then consider "m < length ex" | "m = length ex" by fastforce
  then show "\<exists>k<length ps.
         entry_label ((ex @ [(l, s, e)]) ! m) = label (ps ! k)
         \<and> arrival_time (ps ! k) \<le> entry_start ((ex @ [(l, s, e)]) ! m)
         \<and> (\<forall>j<length ps. label (ps ! j) \<notin> entry_label ` set (take m (ex @ [(l, s, e)]))
                  \<and> arrival_time (ps ! j) \<le> entry_start ((ex @ [(l, s, e)]) ! m) \<longrightarrow>
               burst_time (ps ! k) \<le> burst_time (ps ! j)
               \<and> (burst_time (ps ! j) = burst_time (ps ! k) \<longrightarrow> k \<le> j))"
  proof cases
    case 1
    then have "(ex @ [(l, s, e)]) ! m = ex ! m" "take m (ex @ [(l, s, e)]) = take m ex"
      by (simp_all add: nth_append)
    with assms(1) 1 show ?thesis unfolding sjf_choice_def by simp
  next
    case 2
    then have "(ex @ [(l, s, e)]) ! m = (l, s, e)" "take m (ex @ [(l, s, e)]) = ex"
      by simp_all
    with assms(2-5) show ?thesis
      by (auto simp: entry_label_def entry_start_def)
  qed
qed

lemma sjf_loop_choice:
  assumes d: "distinct (map pid ps0)"
  shows "map spec ps = map spec ps0 \<Longrightarrow> sorted_wrt (<) rem \<Longrightarrow> \<forall>j\<in>set rem. j < length ps0 \<Longrightarrow>
     \<forall>j<length ps0. j \<in> set rem \<longleftrightarrow> label (ps0 ! j) \<notin> entry_label ` set (executions tline) \<Longrightarrow>
     sjf_choice ps0 (executions tline) \<Longrightarrow>
     sjf_choice ps0 (executions (snd (sjf_loop ps t rem tline)))"
proof (induction ps t rem tline rule: sjf_induct)
  case (Nil ps t tline)
  then show ?case by simp
next
  case (idle ps t rem tline)
  have "sjf_choice ps0 (executions (snd (sjf_loop ps (sjf_next_arrival ps rem) rem
          (tline @ [(IDLE, t, sjf_next_arrival ps rem)]))))"
    using idle.prems by (intro idle.IH) simp_all
  then show ?case by (simp add: sjf_loop_idle [OF idle.hyps])
next
  case (run ps t rem tline)
  let ?k = "sjf_shortest ps t rem"
  let ?ps = "ps[?k := whole_run t (ps ! ?k)]"
  let ?e = "(label (ps ! ?k), t, t + burst_time (ps ! ?k))"
  note sp = run.prems(1) and srt = run.prems(2) and bd = run.prems(3)
    and inv = run.prems(4) and ch = run.prems(5)
  from sjf_shortest_in [OF run.hyps(2)] have kin: "?k \<in> set rem" and ka: "arrival_time (ps ! ?k) \<le> t"
    by simp_all
  from kin bd have kl: "?k < length ps0" by blast
  note eqk = map_spec_nth [OF sp kl]
  have 1: "map spec ?ps = map spec ps0"
    using sp by (simp add: map_spec_update)
  have 2: "sorted_wrt (<) (remove1 ?k rem)"
    using srt by (rule sorted_wrt_remove1_nat)
  from srt have dr: "distinct rem" by (simp add: strict_sorted_iff)
  then have sr: "set (remove1 ?k rem) = set rem - {?k}" by simp
  have 3: "\<forall>j\<in>set (remove1 ?k rem). j < length ps0"
    using bd sr by simp
  have 4: "\<forall>j<length ps0. j \<in> set (remove1 ?k rem)
      \<longleftrightarrow> label (ps0 ! j) \<notin> entry_label ` set (executions (tline @ [?e]))"
  proof (intro allI impI)
    fix j assume j: "j < length ps0"
    have "label (ps0 ! j) = label (ps0 ! ?k) \<longleftrightarrow> j = ?k"
      using distinct_pid_index [OF d j kl] by (auto simp: label_eq_iff)
    with inv j show "j \<in> set (remove1 ?k rem)
      \<longleftrightarrow> label (ps0 ! j) \<notin> entry_label ` set (executions (tline @ [?e]))"
      unfolding sr by (auto simp: eqk(4) entry_label_def)
  qed
  have least: "\<forall>j<length ps0. label (ps0 ! j) \<notin> entry_label ` set (executions tline)
                  \<and> arrival_time (ps0 ! j) \<le> t \<longrightarrow>
               burst_time (ps0 ! ?k) \<le> burst_time (ps0 ! j)
               \<and> (burst_time (ps0 ! j) = burst_time (ps0 ! ?k) \<longrightarrow> ?k \<le> j)"
  proof (intro allI impI)
    fix j assume j: "j < length ps0"
      and a: "label (ps0 ! j) \<notin> entry_label ` set (executions tline) \<and> arrival_time (ps0 ! j) \<le> t"
    from inv j a have jr: "j \<in> set rem" by blast
    from a have ja: "arrival_time (ps ! j) \<le> t" by (simp add: map_spec_nth [OF sp j])
    from sjf_shortest_least [OF srt run.hyps(2) jr ja]
    show "burst_time (ps0 ! ?k) \<le> burst_time (ps0 ! j)
               \<and> (burst_time (ps0 ! j) = burst_time (ps0 ! ?k) \<longrightarrow> ?k \<le> j)"
      by (simp add: map_spec_nth [OF sp j] eqk)
  qed
  have 5: "sjf_choice ps0 (executions (tline @ [?e]))"
    unfolding executions_append eqk(4) executions_simps
    using ch kl refl _ least
  proof (rule sjf_choice_snoc)
    from ka show "arrival_time (ps0 ! ?k) \<le> t" by (simp add: eqk)
  qed
  have "sjf_choice ps0 (executions (snd (sjf_loop ?ps (t + burst_time (ps ! ?k)) (remove1 ?k rem)
          (tline @ [?e]))))"
    using 1 2 3 4 5 by (rule run.IH)
  then show ?case by (simp add: sjf_loop_run [OF run.hyps])
qed

lemma sjf_schedule_choice:
  assumes "distinct (map pid ps)"
  shows "sjf_choice ps (executions (timeline (snd (sjf_schedule (SchedulerSimulator ps)))))"
proof -
  let ?ps1 = "processes (reset_processes (SchedulerSimulator ps))"
  have l: "length ?ps1 = length ps"
    by (simp add: reset_processes_def SchedulerSimulator_def)
  have "sjf_choice ps (executions (snd (sjf_loop ?ps1 0 [0..<length ps] [])))"
  proof (rule sjf_loop_choice [OF assms])
    show "map spec ?ps1 = map spec ps" by (simp add: SchedulerSimulator_def)
    show "sorted_wrt (<) [0..<length ps]" by (rule sorted_wrt_upt)
    show "\<forall>j\<in>set [0..<length ps]. j < length ps" by simp
    show "\<forall>j<length ps. j \<in> set [0..<length ps]
        \<longleftrightarrow> label (ps ! j) \<notin> entry_label ` set (executions [])" by simp
    show "sjf_choice ps (executions [])" by (simp add: sjf_choice_def)
  qed
  then show ?thesis unfolding sjf_schedule_timeline l .
qed

section \<open>The claims\<close>

text \<open>
  Claim C1 as stated fails: a process with burst time 0 is accepted by FIFO, which
  returns averages, appends a timeline entry and updates the process state.
\<close>

theorem validation_counterexample:
  "burst_time (Process 1 0 0) \<le> 0
   \<and> fifo_schedule (SchedulerSimulator [Process 1 0 0])
     = (Inr \<lparr>avg_tat = 0, avg_wt = 0, avg_rt = 0\<rparr>,
        \<lparr>original_processes = [Process 1 0 0],
         processes = [(Process 1 0 0)\<lparr>first_run := 0\<rparr>],
         timeline = [(''P1'', 0, 0)]\<rparr>)"
  by code_simp

text \<open>
  Claim C1, as amended. The engine validates nothing: on every non-empty process list,
  also one with a burst time \<open>\<le> 0\<close>, a negative arrival time or a repeated pid, and
  for Round Robin with every quantum, also one \<open>\<le> 0\<close>, the simulation starts. FIFO and
  SJF go through the whole list, and the timeline they leave holds one execution entry
  for each process. STCF and Round Robin enter their loop and make its first iteration,
  which raises nothing and, in STCF, moves the clock to 1; the call then is the loop
  continued from the state after that iteration.
\<close>

theorem no_validation:
  assumes "ps \<noteq> []"
  shows "length (executions (timeline (snd (fifo_schedule (SchedulerSimulator ps))))) = length ps
       \<and> length (executions (timeline (snd (sjf_schedule (SchedulerSimulator ps))))) = length ps
       \<and> stcf_schedule (SchedulerSimulator ps)
           = stcf_return ps (stcf_loop (stcf_step (stcf_entry ps)))
       \<and> st_time (stcf_step (stcf_entry ps)) = 1
       \<and> (\<exists>s1. rr_step quantum (rr_entry ps) = Inr s1
             \<and> rr_schedule (SchedulerSimulator ps) quantum
                 = rr_return ps (rr_loop quantum s1))"
proof -
  let ?s1 = "reset_processes (SchedulerSimulator ps)"
  have len: "length (processes ?s1) = length ps" and tl: "timeline ?s1 = []"
    by (simp_all add: reset_processes_def SchedulerSimulator_def)
  have f: "length (executions (timeline (snd (fifo_schedule (SchedulerSimulator ps))))) = length ps"
    using fifo_loop_executions [of "sort_key arrival_time (processes ?s1)" 0 "[]"] len
    by (simp add: fifo_schedule_def Let_def calculate_metrics_def tl split_beta)
  have s: "length (executions (timeline (snd (sjf_schedule (SchedulerSimulator ps))))) = length ps"
    using sjf_loop_executions [of "processes ?s1" 0 "[0..<length (processes ?s1)]" "[]"] len
    by (simp add: sjf_schedule_def Let_def calculate_metrics_def tl split_beta)
  from assms have "length (st_completed (stcf_entry ps)) < length (st_processes (stcf_entry ps))"
    by (simp add: stcf_entry_def)
  then have "stcf_loop (stcf_entry ps) = stcf_loop (stcf_step (stcf_entry ps))"
    by (subst stcf_loop.simps) simp
  then have c: "stcf_schedule (SchedulerSimulator ps)
           = stcf_return ps (stcf_loop (stcf_step (stcf_entry ps)))"
    by (simp add: stcf_schedule_entry)
  have t: "st_time (stcf_step (stcf_entry ps)) = 1"
    by (simp add: stcf_step_time stcf_entry_def)
  obtain s1 where r1: "rr_step quantum (rr_entry ps) = Inr s1"
    using rr_first_step by blast
  from assms have "length (rr_completed (rr_entry ps)) < length (rr_processes (rr_entry ps))"
    by (simp add: rr_entry_def Let_def)
  then have "rr_loop quantum (rr_entry ps) = rr_loop quantum s1"
    by (subst rr_loop.simps) (simp add: r1)
  then have r2: "rr_schedule (SchedulerSimulator ps) quantum = rr_return ps (rr_loop quantum s1)"
    by (simp add: rr_schedule_entry)
  from f s c t r1 r2 show ?thesis by blast
qed

theorem no_validation_witness:
  "[Process 1 0 0, Process 1 (- 2) (- 3)] \<noteq> []
   \<and> length (executions (timeline (snd (fifo_schedule
        (SchedulerSimulator [Process 1 0 0, Process 1 (- 2) (- 3)])))))
       = length [Process 1 0 0, Process 1 (- 2) (- 3)]
   \<and> length (executions (timeline (snd (sjf_schedule
        (SchedulerSimulator [Process 1 0 0, Process 1 (- 2) (- 3)])))))
       = length [Process 1 0 0, Process 1 (- 2) (- 3)]
   \<and> st_time (stcf_step (stcf_entry [Process 1 0 0, Process 1 (- 2) (- 3)])) = 1
   \<and> (\<exists>s1. rr_step 0 (rr_entry [Process 1 0 0, Process 1 (- 2) (- 3)]) = Inr s1
         \<and> rr_schedule (SchedulerSimulator [Process 1 0 0, Process 1 (- 2) (- 3)]) 0
             = rr_return [Process 1 0 0, Process 1 (- 2) (- 3)] (rr_loop 0 s1))"
  using no_validation [of "[Process 1 0 0, Process 1 (- 2) (- 3)]" 0] by simp

text \<open>
  Claim C3 fails on the code: for the empty process list every policy reaches
  \<^verbatim>\<open>print_results\<close>, whose division by \<^verbatim>\<open>n = 0\<close> raises \<^verbatim>\<open>ZeroDivisionError\<close>.
\<close>

theorem empty_input_raises:
  "fifo_schedule (SchedulerSimulator []) = (Inl ZeroDivisionError, SchedulerSimulator [])
   \<and> sjf_schedule (SchedulerSimulator []) = (Inl ZeroDivisionError, SchedulerSimulator [])
   \<and> stcf_schedule (SchedulerSimulator []) = Some (Inl ZeroDivisionError, SchedulerSimulator [])
   \<and> rr_schedule (SchedulerSimulator []) quantum
       = Some (Inl ZeroDivisionError, SchedulerSimulator [])"
proof -
  have "fifo_schedule (SchedulerSimulator []) = (Inl ZeroDivisionError, SchedulerSimulator [])"
    by code_simp
  moreover
  have "sjf_schedule (SchedulerSimulator []) = (Inl ZeroDivisionError, SchedulerSimulator [])"
    by code_simp
  moreover
  have "stcf_schedule (SchedulerSimulator []) = Some (Inl ZeroDivisionError, SchedulerSimulator [])"
    by code_simp
  moreover
  have "rr_schedule (SchedulerSimulator []) quantum
          = Some (Inl ZeroDivisionError, SchedulerSimulator [])"
    by (simp add: rr_schedule_def reset_processes_def SchedulerSimulator_def rr_initial_def
          rr_loop.simps calculate_metrics_def print_results_def py_truediv_def)
  ultimately show ?thesis by blast
qed

text \<open>
  Claim C4. FIFO on the four processes of \<^verbatim>\<open>main\<close>: completion times 5, 8, 16, 22,
  turnaround times 5, 7, 14, 19 (average 11.25 = 45/4), waiting times 0, 4, 6, 13
  (average 5.75 = 23/4), and response times equal to the waiting times.
\<close>

theorem fifo_scenario:
  "map (\<lambda>p. (pid p, completion_time p, turnaround_time p, waiting_time p, response_time p))
       (processes (snd (fifo_schedule (SchedulerSimulator main_processes))))
     = [(1, 5, 5, 0, 0), (2, 8, 7, 4, 4), (3, 16, 14, 6, 6), (4, 22, 19, 13, 13)]
   \<and> fst (fifo_schedule (SchedulerSimulator main_processes))
     = Inr \<lparr>avg_tat = 45 / 4, avg_wt = 23 / 4, avg_rt = 23 / 4\<rparr>"
  by code_simp

text \<open>
  Claim C9. A simulator left behind by a run of any policy gives, for every policy,
  the same result as the simulator before that run, and the run leaves the original
  process list unchanged: each policy starts with \<^const>\<open>reset_processes\<close>, which
  rebuilds the working list from the original list and empties the timeline.
\<close>

theorem runs_independent:
  assumes "sim' = snd (fifo_schedule sim) \<or> sim' = snd (sjf_schedule sim)
           \<or> (\<exists>r. stcf_schedule sim = Some (r, sim'))
           \<or> (\<exists>r. rr_schedule sim quantum = Some (r, sim'))"
  shows "original_processes sim' = original_processes sim
         \<and> fifo_schedule sim' = fifo_schedule sim
         \<and> sjf_schedule sim' = sjf_schedule sim
         \<and> stcf_schedule sim' = stcf_schedule sim
         \<and> rr_schedule sim' q = rr_schedule sim q"
proof -
  from assms have "original_processes sim' = original_processes sim"
    using fifo_schedule_original sjf_schedule_original stcf_schedule_original
      rr_schedule_original by metis
  then show ?thesis using schedule_cong by blast
qed

theorem runs_independent_witness:
  "snd (fifo_schedule (SchedulerSimulator main_processes))
     \<noteq> SchedulerSimulator main_processes
   \<and> sjf_schedule (snd (fifo_schedule (SchedulerSimulator main_processes)))
     = sjf_schedule (SchedulerSimulator main_processes)
   \<and> rr_schedule (snd (fifo_schedule (SchedulerSimulator main_processes))) 3
     = rr_schedule (SchedulerSimulator main_processes) 3"
proof -
  have "snd (fifo_schedule (SchedulerSimulator main_processes))
          \<noteq> SchedulerSimulator main_processes"
    by code_simp
  then show ?thesis
    using runs_independent [of "snd (fifo_schedule (SchedulerSimulator main_processes))"
        "SchedulerSimulator main_processes" 3 3]
    by simp
qed

text \<open>
  Claim C10. After a FIFO run the result states are sorted by arrival time, and for
  every arrival time the processes with that arrival time are in input order (the
  sort is stable); after an SJF, STCF or Round-Robin run the result states are in
  input order.
\<close>

theorem result_order:
  "sorted (map arrival_time (processes (snd (fifo_schedule sim))))
   \<and> (\<forall>k. filter (\<lambda>x. fst (snd x) = k) (map spec (processes (snd (fifo_schedule sim))))
          = filter (\<lambda>x. fst (snd x) = k) (map spec (original_processes sim)))
   \<and> map spec (processes (snd (sjf_schedule sim))) = map spec (original_processes sim)
   \<and> (\<forall>r sim'. stcf_schedule sim = Some (r, sim') \<longrightarrow>
          map spec (processes sim') = map spec (original_processes sim))
   \<and> (\<forall>r sim'. rr_schedule sim quantum = Some (r, sim') \<longrightarrow>
          map spec (processes sim') = map spec (original_processes sim))"
proof -
  let ?ps = "processes (reset_processes sim)"
  let ?f = "processes (snd (fifo_schedule sim))"
  have "map arrival_time ?f = map (fst \<circ> snd) (map spec ?f)"
    by (simp add: arrival_spec)
  also have "\<dots> = map arrival_time (sort_key arrival_time ?ps)"
    by (simp add: fifo_schedule_spec arrival_spec)
  finally have a: "sorted (map arrival_time ?f)" by simp
  have b: "filter (\<lambda>x. fst (snd x) = k) (map spec ?f)
             = filter (\<lambda>x. fst (snd x) = k) (map spec (original_processes sim))" for k
  proof -
    have "filter (\<lambda>x. fst (snd x) = k) (map spec ?f)
            = map spec (filter (\<lambda>p. arrival_time p = k) (sort_key arrival_time ?ps))"
      by (simp only: fifo_schedule_spec filter_spec)
    also have "\<dots> = map spec (filter (\<lambda>p. arrival_time p = k) ?ps)"
      by (simp only: sort_key_stable)
    also have "\<dots> = filter (\<lambda>x. fst (snd x) = k) (map spec ?ps)"
      by (simp only: filter_spec)
    finally show ?thesis by (simp only: map_spec_reset)
  qed
  from a b sjf_schedule_spec stcf_schedule_spec rr_schedule_spec show ?thesis by blast
qed

theorem result_order_witness:
  "map pid (processes (snd (fifo_schedule (SchedulerSimulator order_example)))) = [2, 1, 3]
   \<and> map pid (processes (snd (sjf_schedule (SchedulerSimulator order_example)))) = [1, 2, 3]
   \<and> (\<exists>r sim'. stcf_schedule (SchedulerSimulator order_example) = Some (r, sim')
         \<and> map spec (processes sim') = map spec order_example)
   \<and> (\<exists>r sim'. rr_schedule (SchedulerSimulator order_example) 3 = Some (r, sim')
         \<and> map spec (processes sim') = map spec order_example)"
proof -
  have o: "original_processes (SchedulerSimulator order_example) = order_example"
    by (simp add: SchedulerSimulator_def)
  have a: "map pid (processes (snd (fifo_schedule (SchedulerSimulator order_example)))) = [2, 1, 3]"
    by code_simp
  have b: "map pid (processes (snd (sjf_schedule (SchedulerSimulator order_example)))) = [1, 2, 3]"
    by code_simp
  have "stcf_schedule (SchedulerSimulator order_example) \<noteq> None" by code_simp
  then obtain r1 s1 where c: "stcf_schedule (SchedulerSimulator order_example) = Some (r1, s1)"
    by auto
  have "rr_schedule (SchedulerSimulator order_example) 3 \<noteq> None" by code_simp
  then obtain r2 s2 where d: "rr_schedule (SchedulerSimulator order_example) 3 = Some (r2, s2)"
    by auto
  from result_order [of "SchedulerSimulator order_example" 3] a b c d o show ?thesis
    by simp
qed

text \<open>
  Claim C7. SJF, one iteration: the loop of \<^verbatim>\<open>sjf_schedule\<close> starts with \<^verbatim>\<open>remaining\<close> the
  positions \<open>[0..<n]\<close> in input order; an idle iteration leaves \<^verbatim>\<open>remaining\<close> as it is,
  and an iteration with an arrived process removes one position, which keeps the list
  in input order. In such an iteration the process \<open>k\<close> that runs (the loop goes on with
  \<open>k\<close> run to completion and removed, and the entry of \<open>k\<close> is the next one of the final
  timeline) has the least burst time among the arrived processes of \<^verbatim>\<open>remaining\<close>, and
  every other one with that burst time is at a later position of the input. SJF, whole
  run, for distinct pids (a label then names one process): the process of every
  execution entry of the timeline returned had arrived when the entry starts, and among
  the processes arrived by then that have no earlier entry it has the least burst time
  and, of those with that burst time, the first position in the input. STCF: in every
  iteration of the loop body with a runnable process, the process \<open>cur\<close> that runs for
  the next time unit (its remaining time drops by one, no other process changes, the
  timeline ends with its label at the new time) has the least remaining time among the
  runnable processes, and every other one with that remaining time is at a later
  position of the input. Neither the pid nor the arrival time takes part.
\<close>

theorem tie_break_input_order:
  "(sorted_wrt (<) remaining \<and> filter (\<lambda>i. arrival_time (ps ! i) \<le> t) remaining \<noteq> [] \<longrightarrow>
      (\<exists>k. k \<in> set remaining \<and> arrival_time (ps ! k) \<le> t
         \<and> (\<forall>j\<in>set remaining. arrival_time (ps ! j) \<le> t \<longrightarrow>
               burst_time (ps ! k) \<le> burst_time (ps ! j)
               \<and> (burst_time (ps ! j) = burst_time (ps ! k) \<longrightarrow> k \<le> j))
         \<and> sjf_loop ps t remaining tline
             = sjf_loop (ps[k := whole_run t (ps ! k)]) (t + burst_time (ps ! k))
                 (remove1 k remaining) (tline @ [(label (ps ! k), t, t + burst_time (ps ! k))])
         \<and> (\<exists>rest. snd (sjf_loop ps t remaining tline)
                     = tline @ (label (ps ! k), t, t + burst_time (ps ! k)) # rest)
         \<and> sorted_wrt (<) (remove1 k remaining)))
   \<and> (remaining \<noteq> [] \<and> filter (\<lambda>i. arrival_time (ps ! i) \<le> t) remaining = [] \<longrightarrow>
        sjf_loop ps t remaining tline
          = sjf_loop ps (min_list (map (\<lambda>i. arrival_time (ps ! i)) remaining)) remaining
              (tline @ [(IDLE, t, min_list (map (\<lambda>i. arrival_time (ps ! i)) remaining))]))
   \<and> timeline (snd (sjf_schedule sim))
        = snd (sjf_loop (processes (reset_processes sim)) 0
                 [0..<length (processes (reset_processes sim))] [])
   \<and> sorted_wrt (<) [0..<length (processes (reset_processes sim))]
   \<and> (distinct (map pid ps0) \<longrightarrow>
      (let ex = executions (timeline (snd (sjf_schedule (SchedulerSimulator ps0))))
       in \<forall>m<length ex. \<exists>k<length ps0.
            entry_label (ex ! m) = label (ps0 ! k)
            \<and> arrival_time (ps0 ! k) \<le> entry_start (ex ! m)
            \<and> (\<forall>j<length ps0. label (ps0 ! j) \<notin> entry_label ` set (take m ex)
                     \<and> arrival_time (ps0 ! j) \<le> entry_start (ex ! m) \<longrightarrow>
                  burst_time (ps0 ! k) \<le> burst_time (ps0 ! j)
                  \<and> (burst_time (ps0 ! j) = burst_time (ps0 ! k) \<longrightarrow> k \<le> j))))
   \<and> (stcf_available (st_processes s) (st_time s) \<noteq> [] \<longrightarrow>
      (\<exists>cur. cur < length (st_processes s) \<and> arrival_time (st_processes s ! cur) \<le> st_time s
         \<and> 0 < remaining_time (st_processes s ! cur)
         \<and> (\<forall>j. j < length (st_processes s) \<and> arrival_time (st_processes s ! j) \<le> st_time s
                  \<and> 0 < remaining_time (st_processes s ! j) \<longrightarrow>
               remaining_time (st_processes s ! cur) \<le> remaining_time (st_processes s ! j)
               \<and> (remaining_time (st_processes s ! j) = remaining_time (st_processes s ! cur)
                    \<longrightarrow> cur \<le> j))
         \<and> remaining_time (st_processes (stcf_step s) ! cur)
             = remaining_time (st_processes s ! cur) - 1
         \<and> (\<forall>j. j \<noteq> cur \<longrightarrow> st_processes (stcf_step s) ! j = st_processes s ! j)
         \<and> entry_label (last (st_timeline (stcf_step s))) = label (st_processes s ! cur)
         \<and> entry_end (last (st_timeline (stcf_step s))) = st_time s + 1))"
proof (intro conjI impI)
  assume a: "sorted_wrt (<) remaining \<and> filter (\<lambda>i. arrival_time (ps ! i) \<le> t) remaining \<noteq> []"
  define k where "k = sjf_shortest ps t remaining"
  from a have srt: "sorted_wrt (<) remaining" and av: "sjf_available ps t remaining \<noteq> []"
    by (simp_all add: sjf_available_def)
  from av have ne: "remaining \<noteq> []" by (auto simp: sjf_available_def)
  have 1: "k \<in> set remaining \<and> arrival_time (ps ! k) \<le> t"
    unfolding k_def using sjf_shortest_in [OF av] by simp
  have 2: "\<forall>j\<in>set remaining. arrival_time (ps ! j) \<le> t \<longrightarrow>
               burst_time (ps ! k) \<le> burst_time (ps ! j)
               \<and> (burst_time (ps ! j) = burst_time (ps ! k) \<longrightarrow> k \<le> j)"
    unfolding k_def using sjf_shortest_least [OF srt av] by blast
  have 3: "sjf_loop ps t remaining tline
             = sjf_loop (ps[k := whole_run t (ps ! k)]) (t + burst_time (ps ! k))
                 (remove1 k remaining) (tline @ [(label (ps ! k), t, t + burst_time (ps ! k))])"
    unfolding k_def by (rule sjf_loop_run [OF ne av])
  obtain rest where "snd (sjf_loop (ps[k := whole_run t (ps ! k)]) (t + burst_time (ps ! k))
                 (remove1 k remaining) (tline @ [(label (ps ! k), t, t + burst_time (ps ! k))]))
            = (tline @ [(label (ps ! k), t, t + burst_time (ps ! k))]) @ rest"
    using sjf_loop_prefix by blast
  then have 4: "\<exists>rest. snd (sjf_loop ps t remaining tline)
                     = tline @ (label (ps ! k), t, t + burst_time (ps ! k)) # rest"
    unfolding 3 by simp
  have 5: "sorted_wrt (<) (remove1 k remaining)"
    using srt by (rule sorted_wrt_remove1_nat)
  from 1 2 3 4 5
  show "\<exists>k. k \<in> set remaining \<and> arrival_time (ps ! k) \<le> t
         \<and> (\<forall>j\<in>set remaining. arrival_time (ps ! j) \<le> t \<longrightarrow>
               burst_time (ps ! k) \<le> burst_time (ps ! j)
               \<and> (burst_time (ps ! j) = burst_time (ps ! k) \<longrightarrow> k \<le> j))
         \<and> sjf_loop ps t remaining tline
             = sjf_loop (ps[k := whole_run t (ps ! k)]) (t + burst_time (ps ! k))
                 (remove1 k remaining) (tline @ [(label (ps ! k), t, t + burst_time (ps ! k))])
         \<and> (\<exists>rest. snd (sjf_loop ps t remaining tline)
                     = tline @ (label (ps ! k), t, t + burst_time (ps ! k)) # rest)
         \<and> sorted_wrt (<) (remove1 k remaining)"
    by blast
next
  assume "remaining \<noteq> [] \<and> filter (\<lambda>i. arrival_time (ps ! i) \<le> t) remaining = []"
  then have "remaining \<noteq> []" and "sjf_available ps t remaining = []"
    by (simp_all add: sjf_available_def)
  then show "sjf_loop ps t remaining tline
          = sjf_loop ps (min_list (map (\<lambda>i. arrival_time (ps ! i)) remaining)) remaining
              (tline @ [(IDLE, t, min_list (map (\<lambda>i. arrival_time (ps ! i)) remaining))])"
    unfolding sjf_next_arrival_def [symmetric] by (rule sjf_loop_idle)
next
  show "timeline (snd (sjf_schedule sim))
        = snd (sjf_loop (processes (reset_processes sim)) 0
                 [0..<length (processes (reset_processes sim))] [])"
    by (rule sjf_schedule_timeline)
next
  show "sorted_wrt (<) [0..<length (processes (reset_processes sim))]"
    by (rule sorted_wrt_upt)
next
  assume "distinct (map pid ps0)"
  then have "sjf_choice ps0 (executions (timeline (snd (sjf_schedule (SchedulerSimulator ps0)))))"
    by (rule sjf_schedule_choice)
  then show "let ex = executions (timeline (snd (sjf_schedule (SchedulerSimulator ps0))))
       in \<forall>m<length ex. \<exists>k<length ps0.
            entry_label (ex ! m) = label (ps0 ! k)
            \<and> arrival_time (ps0 ! k) \<le> entry_start (ex ! m)
            \<and> (\<forall>j<length ps0. label (ps0 ! j) \<notin> entry_label ` set (take m ex)
                     \<and> arrival_time (ps0 ! j) \<le> entry_start (ex ! m) \<longrightarrow>
                  burst_time (ps0 ! k) \<le> burst_time (ps0 ! j)
                  \<and> (burst_time (ps0 ! j) = burst_time (ps0 ! k) \<longrightarrow> k \<le> j))"
    unfolding sjf_choice_def Let_def .
next
  let ?ps = "st_processes s" and ?t = "st_time s"
  assume av: "stcf_available ?ps ?t \<noteq> []"
  define cur where "cur = stcf_current ?ps ?t"
  have 1: "cur < length ?ps \<and> arrival_time (?ps ! cur) \<le> ?t \<and> 0 < remaining_time (?ps ! cur)"
    unfolding cur_def using stcf_current_in [OF av] by simp
  have 2: "\<forall>j. j < length ?ps \<and> arrival_time (?ps ! j) \<le> ?t \<and> 0 < remaining_time (?ps ! j) \<longrightarrow>
               remaining_time (?ps ! cur) \<le> remaining_time (?ps ! j)
               \<and> (remaining_time (?ps ! j) = remaining_time (?ps ! cur) \<longrightarrow> cur \<le> j)"
    unfolding cur_def using stcf_current_least [of _ ?ps ?t] by blast
  note e = stcf_dispatch_effect [OF av, folded cur_def]
  from 1 2 e(1,2,4,5)
  show "\<exists>cur. cur < length ?ps \<and> arrival_time (?ps ! cur) \<le> ?t
         \<and> 0 < remaining_time (?ps ! cur)
         \<and> (\<forall>j. j < length ?ps \<and> arrival_time (?ps ! j) \<le> ?t
                  \<and> 0 < remaining_time (?ps ! j) \<longrightarrow>
               remaining_time (?ps ! cur) \<le> remaining_time (?ps ! j)
               \<and> (remaining_time (?ps ! j) = remaining_time (?ps ! cur)
                    \<longrightarrow> cur \<le> j))
         \<and> remaining_time (st_processes (stcf_step s) ! cur)
             = remaining_time (?ps ! cur) - 1
         \<and> (\<forall>j. j \<noteq> cur \<longrightarrow> st_processes (stcf_step s) ! j = ?ps ! j)
         \<and> entry_label (last (st_timeline (stcf_step s))) = label (?ps ! cur)
         \<and> entry_end (last (st_timeline (stcf_step s))) = ?t + 1"
    by blast
qed


theorem tie_break_input_order_witness:
  "sorted_wrt (<) [1, 2 :: nat]
   \<and> distinct (map pid tie_example)
   \<and> filter (\<lambda>i. arrival_time (tie_processes ! i) \<le> 3) [1, 2] \<noteq> []
   \<and> stcf_available (st_processes tie_state) (st_time tie_state) \<noteq> []
   \<and> burst_time (tie_processes ! 1) = burst_time (tie_processes ! 2)
   \<and> remaining_time (st_processes tie_state ! 1) = remaining_time (st_processes tie_state ! 2)
   \<and> pid (tie_example ! 2) < pid (tie_example ! 1)
   \<and> arrival_time (tie_example ! 2) < arrival_time (tie_example ! 1)
   \<and> sjf_loop tie_processes 3 [1, 2] [(''P7'', 0, 3)]
       = sjf_loop (tie_processes[1 := whole_run 3 (tie_processes ! 1)]) 5 [2]
           [(''P7'', 0, 3), (''P5'', 3, 5)]
   \<and> remaining_time (st_processes (stcf_step tie_state) ! 1) = 1
   \<and> entry_label (last (st_timeline (stcf_step tie_state))) = ''P5''
   \<and> sjf_loop tie_example 0 [0, 1, 2] [] = sjf_loop tie_processes 3 [1, 2] [(''P7'', 0, 3)]
   \<and> stcf_step (stcf_step (stcf_step
         \<lparr>st_processes = tie_example, st_time = 0, st_completed = [], st_timeline = []\<rparr>))
       = tie_state
   \<and> timeline (snd (sjf_schedule (SchedulerSimulator tie_example)))
       = [(''P7'', 0, 3), (''P5'', 3, 5), (''P3'', 5, 7)]
   \<and> map_option (\<lambda>r. timeline (snd r)) (stcf_schedule (SchedulerSimulator tie_example))
       = Some [(''P7'', 0, 3), (''P5'', 3, 5), (''P3'', 5, 7)]"
proof -
  have h1: "sorted_wrt (<) [1, 2 :: nat]
      \<and> filter (\<lambda>i. arrival_time (tie_processes ! i) \<le> 3) [1, 2] \<noteq> []"
    by code_simp
  have h2: "stcf_available (st_processes tie_state) (st_time tie_state) \<noteq> []"
    by code_simp
  have tie: "burst_time (tie_processes ! 1) = burst_time (tie_processes ! 2)
      \<and> remaining_time (st_processes tie_state ! 1) = remaining_time (st_processes tie_state ! 2)
      \<and> pid (tie_example ! 2) < pid (tie_example ! 1)
      \<and> arrival_time (tie_example ! 2) < arrival_time (tie_example ! 1)"
    by code_simp
  have v: "arrival_time (tie_processes ! 1) \<le> 3" "burst_time (tie_processes ! 1) = 2"
    "burst_time (tie_processes ! 2) = 2" "label (tie_processes ! 1) = ''P5''"
    by code_simp+
  have w: "st_time tie_state = 3" "length (st_processes tie_state) = 3"
    "remaining_time (st_processes tie_state ! 0) = 0"
    "remaining_time (st_processes tie_state ! 1) = 2"
    "remaining_time (st_processes tie_state ! 2) = 2"
    "arrival_time (st_processes tie_state ! 1) \<le> 3"
    "label (st_processes tie_state ! 1) = ''P5''"
    by code_simp+
  have h3: "distinct (map pid tie_example)"
    by code_simp
  note t = tie_break_input_order [of "[1, 2]" tie_processes 3 "[(''P7'', 0, 3)]"
      "SchedulerSimulator tie_example" tie_example tie_state]
  from t h1 obtain k where k: "k \<in> set [1, 2 :: nat]"
    and least: "\<forall>j\<in>set [1, 2]. arrival_time (tie_processes ! j) \<le> 3 \<longrightarrow>
               burst_time (tie_processes ! k) \<le> burst_time (tie_processes ! j)
               \<and> (burst_time (tie_processes ! j) = burst_time (tie_processes ! k) \<longrightarrow> k \<le> j)"
    and run: "sjf_loop tie_processes 3 [1, 2] [(''P7'', 0, 3)]
             = sjf_loop (tie_processes[k := whole_run 3 (tie_processes ! k)])
                 (3 + burst_time (tie_processes ! k)) (remove1 k [1, 2])
                 ([(''P7'', 0, 3)] @ [(label (tie_processes ! k), 3, 3 + burst_time (tie_processes ! k))])"
    by blast
  from least v(1) have "burst_time (tie_processes ! 1) = burst_time (tie_processes ! k) \<longrightarrow> k \<le> 1"
    by simp
  with k v(2,3) have k1: "k = 1" by auto
  have sjf: "sjf_loop tie_processes 3 [1, 2] [(''P7'', 0, 3)]
       = sjf_loop (tie_processes[1 := whole_run 3 (tie_processes ! 1)]) 5 [2]
           [(''P7'', 0, 3), (''P5'', 3, 5)]"
    using run unfolding k1 v by simp
  from t h2 obtain cur where c: "cur < length (st_processes tie_state)"
    and pos: "0 < remaining_time (st_processes tie_state ! cur)"
    and least': "\<forall>j. j < length (st_processes tie_state)
                  \<and> arrival_time (st_processes tie_state ! j) \<le> st_time tie_state
                  \<and> 0 < remaining_time (st_processes tie_state ! j) \<longrightarrow>
               remaining_time (st_processes tie_state ! cur) \<le> remaining_time (st_processes tie_state ! j)
               \<and> (remaining_time (st_processes tie_state ! j) = remaining_time (st_processes tie_state ! cur)
                    \<longrightarrow> cur \<le> j)"
    and dec: "remaining_time (st_processes (stcf_step tie_state) ! cur)
             = remaining_time (st_processes tie_state ! cur) - 1"
    and lab: "entry_label (last (st_timeline (stcf_step tie_state))) = label (st_processes tie_state ! cur)"
    by blast
  from c w(2) have "cur = 0 \<or> cur = 1 \<or> cur = 2" by auto
  moreover have "cur \<noteq> 0"
  proof
    assume "cur = 0"
    with pos w(3) show False by simp
  qed
  moreover from least' [rule_format, of 1] w
  have "remaining_time (st_processes tie_state ! 1) = remaining_time (st_processes tie_state ! cur)
          \<longrightarrow> cur \<le> 1"
    by simp
  with w(4,5) have "cur \<noteq> 2" by auto
  ultimately have c1: "cur = 1" by blast
  have stcf: "remaining_time (st_processes (stcf_step tie_state) ! 1) = 1
      \<and> entry_label (last (st_timeline (stcf_step tie_state))) = ''P5''"
    using dec lab unfolding c1 w by simp
  have r1: "sjf_loop tie_example 0 [0, 1, 2] [] = sjf_loop tie_processes 3 [1, 2] [(''P7'', 0, 3)]"
    by code_simp
  have r2: "stcf_step (stcf_step (stcf_step
         \<lparr>st_processes = tie_example, st_time = 0, st_completed = [], st_timeline = []\<rparr>))
       = tie_state"
    by code_simp
  have e1: "timeline (snd (sjf_schedule (SchedulerSimulator tie_example)))
       = [(''P7'', 0, 3), (''P5'', 3, 5), (''P3'', 5, 7)]"
    by code_simp
  have e2: "map_option (\<lambda>r. timeline (snd r)) (stcf_schedule (SchedulerSimulator tie_example))
       = Some [(''P7'', 0, 3), (''P5'', 3, 5), (''P3'', 5, 7)]"
    by code_simp
  from h1 h2 h3 tie sjf stcf r1 r2 e1 e2 show ?thesis by blast
qed

text \<open>
  Claim C5. On valid input (with a positive quantum for Round Robin) every policy
  returns, and the total length of the timeline entries that are not idle intervals
  equals the sum of the burst times of the input.
\<close>

theorem busy_time_total:
  assumes "valid_input (original_processes sim)" and "0 < quantum"
  shows "busy (timeline (snd (fifo_schedule sim)))
           = sum_list (map burst_time (original_processes sim))
       \<and> busy (timeline (snd (sjf_schedule sim)))
           = sum_list (map burst_time (original_processes sim))
       \<and> (\<exists>r sim'. stcf_schedule sim = Some (r, sim')
             \<and> busy (timeline sim') = sum_list (map burst_time (original_processes sim)))
       \<and> (\<exists>r sim'. rr_schedule sim quantum = Some (r, sim')
             \<and> busy (timeline sim') = sum_list (map burst_time (original_processes sim)))"
proof -
  from stcf_schedule_valid [OF assms(1)] have
    "\<exists>r sim'. stcf_schedule sim = Some (r, sim')
       \<and> busy (timeline sim') = sum_list (map burst_time (original_processes sim))"
    by blast
  moreover from rr_schedule_valid [OF assms] have
    "\<exists>r sim'. rr_schedule sim quantum = Some (r, sim')
       \<and> busy (timeline sim') = sum_list (map burst_time (original_processes sim))"
    by blast
  ultimately show ?thesis using fifo_busy [of sim] sjf_busy [of sim] by blast
qed

theorem busy_time_total_witness:
  "busy (timeline (snd (fifo_schedule (SchedulerSimulator main_processes)))) = 22
   \<and> busy (timeline (snd (sjf_schedule (SchedulerSimulator main_processes)))) = 22
   \<and> (\<exists>r sim'. stcf_schedule (SchedulerSimulator main_processes) = Some (r, sim')
         \<and> busy (timeline sim') = 22)
   \<and> (\<exists>r sim'. rr_schedule (SchedulerSimulator main_processes) 3 = Some (r, sim')
         \<and> busy (timeline sim') = 22)"
proof -
  have v: "valid_input (original_processes (SchedulerSimulator main_processes))"
    by code_simp
  have s: "sum_list (map burst_time (original_processes (SchedulerSimulator main_processes))) = 22"
    by code_simp
  from busy_time_total [OF v, of 3] show ?thesis unfolding s by simp
qed

text \<open>
  Claim C8. On valid input (with a positive quantum for Round Robin) every policy
  returns, and every process of the result satisfies \<open>metrics_ok\<close>: waiting time and
  response time are not negative, the response time is at most the waiting time, the
  turnaround time is at least the burst time, and the three are computed as completion
  minus arrival, turnaround minus burst, and first run minus arrival.
\<close>

theorem metrics_bounds:
  assumes "valid_input (original_processes sim)" and "0 < quantum"
  shows "(\<forall>p\<in>set (processes (snd (fifo_schedule sim))). metrics_ok p)
       \<and> (\<forall>p\<in>set (processes (snd (sjf_schedule sim))). metrics_ok p)
       \<and> (\<exists>r sim'. stcf_schedule sim = Some (r, sim') \<and> (\<forall>p\<in>set (processes sim'). metrics_ok p))
       \<and> (\<exists>r sim'. rr_schedule sim quantum = Some (r, sim')
             \<and> (\<forall>p\<in>set (processes sim'). metrics_ok p))"
proof -
  from stcf_schedule_valid [OF assms(1)] have
    "\<exists>r sim'. stcf_schedule sim = Some (r, sim') \<and> (\<forall>p\<in>set (processes sim'). metrics_ok p)"
    by blast
  moreover from rr_schedule_valid [OF assms] have
    "\<exists>r sim'. rr_schedule sim quantum = Some (r, sim') \<and> (\<forall>p\<in>set (processes sim'). metrics_ok p)"
    by blast
  ultimately show ?thesis using fifo_metrics_ok [of sim] sjf_metrics_ok [of sim] by blast
qed

theorem metrics_bounds_witness:
  "list_all metrics_ok (processes (snd (fifo_schedule (SchedulerSimulator main_processes))))
   \<and> list_all metrics_ok (processes (snd (sjf_schedule (SchedulerSimulator main_processes))))
   \<and> (\<exists>r sim'. stcf_schedule (SchedulerSimulator main_processes) = Some (r, sim')
         \<and> list_all metrics_ok (processes sim'))
   \<and> (\<exists>r sim'. rr_schedule (SchedulerSimulator main_processes) 3 = Some (r, sim')
         \<and> list_all metrics_ok (processes sim'))"
proof -
  have v: "valid_input (original_processes (SchedulerSimulator main_processes))"
    by code_simp
  from metrics_bounds [OF v, of 3] show ?thesis unfolding list_all_iff by simp
qed

text \<open>
  Claim C2 as stated fails for the two preemptive policies. STCF writes no entry for
  idle time: for one process arriving at time 2 the timeline starts at 2, so it does not
  cover \<open>[0, makespan)\<close>. Round Robin appends one entry for each slice and never merges:
  for one process with burst 5 and quantum 3 two consecutive entries share the label.
  Both inputs are valid.
\<close>

theorem timeline_counterexample:
  "valid_input [Process 1 2 1]
   \<and> map_option (timeline \<circ> snd) (stcf_schedule (SchedulerSimulator [Process 1 2 1]))
       = Some [(''P1'', 2, 3)]
   \<and> \<not> contiguous_from 0 [(''P1'', 2, 3)]
   \<and> valid_input [Process 1 0 5]
   \<and> map_option (timeline \<circ> snd) (rr_schedule (SchedulerSimulator [Process 1 0 5]) 3)
       = Some [(''P1'', 0, 3), (''P1'', 3, 5)]
   \<and> \<not> distinct_adj (map entry_label [(''P1'', 0, 3), (''P1'', 3, 5)])"
  by code_simp

text \<open>
  Claim C2, as amended. On valid non-empty input every policy returns. The FIFO and SJF
  timelines start at 0, each entry has \<open>start < end\<close> and starts where the previous one
  ends, no two consecutive entries share a label, and the last entry ends at the
  makespan (the largest completion time). The STCF timeline is ordered (each entry has
  \<open>start < end\<close> and starts no earlier than the previous one ends, the first no earlier
  than 0), has no two consecutive entries with the same label and ends at the makespan;
  idle time leaves a gap. The Round-Robin timeline is ordered in the same sense and
  ends at the makespan; idle time leaves a gap and slices are not merged.
\<close>

theorem timeline_shape:
  assumes "valid_input (original_processes sim)" and "original_processes sim \<noteq> []"
    and "0 < quantum"
  shows "contiguous_from 0 (timeline (snd (fifo_schedule sim)))
       \<and> distinct_adj (map entry_label (timeline (snd (fifo_schedule sim))))
       \<and> end_of 0 (timeline (snd (fifo_schedule sim))) = makespan (processes (snd (fifo_schedule sim)))
       \<and> contiguous_from 0 (timeline (snd (sjf_schedule sim)))
       \<and> distinct_adj (map entry_label (timeline (snd (sjf_schedule sim))))
       \<and> end_of 0 (timeline (snd (sjf_schedule sim))) = makespan (processes (snd (sjf_schedule sim)))
       \<and> (\<exists>r sim'. stcf_schedule sim = Some (r, sim')
             \<and> ordered_from 0 (timeline sim')
             \<and> distinct_adj (map entry_label (timeline sim'))
             \<and> end_of 0 (timeline sim') = makespan (processes sim'))
       \<and> (\<exists>r sim'. rr_schedule sim quantum = Some (r, sim')
             \<and> ordered_from 0 (timeline sim')
             \<and> end_of 0 (timeline sim') = makespan (processes sim'))"
proof -
  from stcf_schedule_valid [OF assms(1)] assms(2) have
    "\<exists>r sim'. stcf_schedule sim = Some (r, sim')
             \<and> ordered_from 0 (timeline sim')
             \<and> distinct_adj (map entry_label (timeline sim'))
             \<and> end_of 0 (timeline sim') = makespan (processes sim')"
    by blast
  moreover from rr_schedule_valid [OF assms(1,3)] assms(2) have
    "\<exists>r sim'. rr_schedule sim quantum = Some (r, sim')
             \<and> ordered_from 0 (timeline sim')
             \<and> end_of 0 (timeline sim') = makespan (processes sim')"
    by blast
  ultimately show ?thesis
    using fifo_timeline_ok [OF assms(1,2)] sjf_timeline_ok [OF assms(1,2)] by blast
qed

theorem timeline_shape_witness:
  "contiguous_from 0 (timeline (snd (fifo_schedule (SchedulerSimulator main_processes))))
   \<and> distinct_adj (map entry_label (timeline (snd (sjf_schedule (SchedulerSimulator main_processes)))))
   \<and> end_of 0 (timeline (snd (sjf_schedule (SchedulerSimulator main_processes))))
       = makespan (processes (snd (sjf_schedule (SchedulerSimulator main_processes))))
   \<and> (\<exists>r sim'. stcf_schedule (SchedulerSimulator main_processes) = Some (r, sim')
         \<and> ordered_from 0 (timeline sim')
         \<and> distinct_adj (map entry_label (timeline sim'))
         \<and> end_of 0 (timeline sim') = makespan (processes sim'))
   \<and> (\<exists>r sim'. rr_schedule (SchedulerSimulator main_processes) 3 = Some (r, sim')
         \<and> ordered_from 0 (timeline sim')
         \<and> end_of 0 (timeline sim') = makespan (processes sim'))"
proof -
  have v: "valid_input (original_processes (SchedulerSimulator main_processes))"
    by code_simp
  have n: "original_processes (SchedulerSimulator main_processes) \<noteq> []"
    by code_simp
  from timeline_shape [OF v n, of 3] show ?thesis by simp
qed

text \<open>
  Claim C6. Take a state of the Round-Robin loop that satisfies the loop invariant
  \<open>rr_inv\<close> (it holds when the loop is entered on valid input and is kept by every
  iteration: lemmas \<open>rr_inv_initial\<close> and \<open>rr_step_total\<close>), with a positive quantum, in
  which the queue is not empty after the first admission scan. The iteration raises no
  error. The process \<open>cur\<close> at the front of the queue runs for
  \<open>e = min quantum remaining_time\<close>: the clock advances by \<open>e\<close>, the timeline gets the
  entry \<open>(label, t, t + e)\<close>, the remaining time drops by \<open>e\<close>. The processes with an
  arrival time in \<open>(t, t + e]\<close>, other than \<open>cur\<close>, are appended to the queue in
  process-list order; then \<open>cur\<close> is appended if it has time remaining, and otherwise
  its completion time is set to \<open>t + e\<close> and it is not queued again.
\<close>

theorem rr_dispatch_order:
  assumes "rr_inv ps0 s" and "0 < quantum"
    and "fst (rr_admit (rr_processes s) (rr_time s) None (rr_queue s, rr_in_queue s)) \<noteq> []"
  shows "\<exists>s'. rr_step quantum s = Inr s' \<and>
     (let ps = rr_processes s; t = rr_time s;
          queue1 = fst (rr_admit ps t None (rr_queue s, rr_in_queue s));
          cur = hd queue1;
          e = min quantum (remaining_time (ps ! cur));
          arrived = filter (\<lambda>i. i \<noteq> cur \<and> t < arrival_time (ps ! i)
                                 \<and> arrival_time (ps ! i) \<le> t + e) [0..<length ps]
      in rr_time s' = t + e
         \<and> rr_timeline s' = rr_timeline s @ [(label (ps ! cur), t, t + e)]
         \<and> remaining_time (rr_processes s' ! cur) = remaining_time (ps ! cur) - e
         \<and> (if remaining_time (ps ! cur) - e = 0
            then completion_time (rr_processes s' ! cur) = t + e
                 \<and> rr_queue s' = tl queue1 @ arrived
            else rr_queue s' = tl queue1 @ arrived @ [cur]))"
proof -
  let ?ps = "rr_processes s" and ?t = "rr_time s"
  let ?el = "rr_eligible ?ps ?t None (rr_in_queue s)"
  let ?q1 = "rr_queue s @ ?el"
  let ?i1 = "rr_in_queue s \<union> (\<lambda>i. pid (?ps ! i)) ` set ?el"
  let ?cur = "hd ?q1"
  let ?e = "rr_slice quantum s ?q1"
  from assms(1) have d: "distinct (map pid ?ps)" by (rule rr_inv_distinct)
  have adm: "fst (rr_admit ?ps ?t None (rr_queue s, rr_in_queue s)) = ?q1"
    unfolding rr_admit_eq [OF d] by simp
  with assms(3) have ne: "?q1 \<noteq> []" by simp
  note di = rr_inv_dispatch [OF assms(1,2) refl refl ne]
  from assms(1) have q: "queue_inv ?ps ?t (rr_queue s) (rr_in_queue s)" by (simp add: rr_inv_def)
  then have "queue_inv ?ps ?t ?q1 ?i1" by (rule queue_inv_admit)
  from queue_inv_hd(1) [OF this ne] have cl: "?cur < length ?ps" .
  from ne have a: "(if ?q1 = [] then X else Y) = Y" for X Y :: "error + rr_state"
    by (rule if_not_P)
  from di(2) have "\<not> pid (?ps ! ?cur) \<notin> ?i1" by blast
  then have b: "(if pid (?ps ! ?cur) \<notin> ?i1 then X else Y) = Y" for X Y :: "error + rr_state"
    by (rule if_not_P)
  have st: "rr_step quantum s = Inr (rr_dispatch quantum s ?q1 ?i1)"
    unfolding rr_step_cases [OF d] Let_def a b ..
  have arr: "rr_arrivals quantum s ?q1 ?i1
      = filter (\<lambda>i. i \<noteq> ?cur \<and> ?t < arrival_time (?ps ! i)
                    \<and> arrival_time (?ps ! i) \<le> ?t + ?e) [0..<length ?ps]"
    using assms(1) refl refl ne by (rule rr_arrivals_during)
  have "rr_time (rr_dispatch quantum s ?q1 ?i1) = ?t + ?e
      \<and> rr_timeline (rr_dispatch quantum s ?q1 ?i1)
          = rr_timeline s @ [(label (?ps ! ?cur), ?t, ?t + ?e)]
      \<and> remaining_time (rr_processes (rr_dispatch quantum s ?q1 ?i1) ! ?cur)
          = remaining_time (?ps ! ?cur) - ?e
      \<and> (if remaining_time (?ps ! ?cur) - ?e = 0
         then completion_time (rr_processes (rr_dispatch quantum s ?q1 ?i1) ! ?cur) = ?t + ?e
              \<and> rr_queue (rr_dispatch quantum s ?q1 ?i1)
                  = tl ?q1 @ rr_arrivals quantum s ?q1 ?i1
         else rr_queue (rr_dispatch quantum s ?q1 ?i1)
                  = tl ?q1 @ rr_arrivals quantum s ?q1 ?i1 @ [?cur])"
    unfolding rr_dispatch_eq [OF d]
    using cl by (simp add: remaining_run_update completion_run_update)
  then show ?thesis
    unfolding st adm Let_def arr rr_slice_def by blast
qed

theorem rr_dispatch_order_witness:
  "\<exists>s'. rr_step 3 rr_main_start = Inr s'
      \<and> rr_time s' = 3
      \<and> rr_timeline s' = [(''P1'', 0, 3)]
      \<and> remaining_time (rr_processes s' ! 0) = 2
      \<and> rr_queue s' = [1, 2, 3, 0]"
proof -
  have v: "valid_input (original_processes (SchedulerSimulator main_processes))"
    by code_simp
  have e: "\<lparr>rr_processes = processes (reset_processes (SchedulerSimulator main_processes)),
            rr_time = 0,
            rr_queue = fst (rr_initial (processes (reset_processes (SchedulerSimulator main_processes))) 0),
            rr_completed = [],
            rr_in_queue = snd (rr_initial (processes (reset_processes (SchedulerSimulator main_processes))) 0),
            rr_timeline = timeline (reset_processes (SchedulerSimulator main_processes))\<rparr>
           = rr_main_start"
    by code_simp
  have o: "original_processes (SchedulerSimulator main_processes) = main_processes"
    by (simp add: SchedulerSimulator_def)
  from rr_inv_initial [OF v] have inv: "rr_inv main_processes rr_main_start"
    unfolding e o .
  have ne: "fst (rr_admit (rr_processes rr_main_start) (rr_time rr_main_start) None
               (rr_queue rr_main_start, rr_in_queue rr_main_start)) \<noteq> []"
    by code_simp
  have f1: "rr_time rr_main_start = 0" "rr_timeline rr_main_start = []"
    by (simp_all add: rr_main_start_def)
  have f2: "fst (rr_admit (rr_processes rr_main_start) 0 None
               (rr_queue rr_main_start, rr_in_queue rr_main_start)) = [0]"
    by code_simp
  have f3: "remaining_time (rr_processes rr_main_start ! 0) = 5"
    "label (rr_processes rr_main_start ! 0) = ''P1''"
    by code_simp+
  have f4: "filter (\<lambda>i. i \<noteq> 0 \<and> 0 < arrival_time (rr_processes rr_main_start ! i)
                  \<and> arrival_time (rr_processes rr_main_start ! i) \<le> 0 + min 3 5)
       [0..<length (rr_processes rr_main_start)] = [1, 2, 3]"
    by code_simp
  note t = rr_dispatch_order [OF inv _ ne, of 3, unfolded Let_def f1 f2 list.sel f3 f4]
  from t show ?thesis by simp
qed

end
